theory Spec2Isabelle
  imports Main "HOL-Library.Word" "HOL-Library.AList" "HOL-Library.Product_Lexorder"
    "HOL-Library.Signed_Division"
begin

unbundle bit_operations_syntax

section \<open>Coordinates and cells (include/game\_of\_life.h)\<close>

text \<open>
  \<^verbatim>\<open>int64_t\<close> is a 64-bit word: \<open>+\<close> and \<open>-\<close> wrap around, \<open>sint\<close> reads the
  two's-complement value.  A \<^verbatim>\<open>CellSet\<close> (a hash set of cells) is modelled by the
  sequence in which the set is iterated: a list without duplicates, in any order.
  A \<^verbatim>\<open>CellCountMap\<close> is an association list with one entry per key, again in
  iteration order.
\<close>

type_synonym int64 = "64 word"

record Cell =
  cell_x :: int64
  cell_y :: int64

type_synonym CellSet = "Cell list"
type_synonym CellCountMap = "(Cell \<times> int) list"

definition min_val :: int64 where
  "min_val = 0x8000000000000000"

definition max_val :: int64 where
  "max_val = 0x7FFFFFFFFFFFFFFF"

definition would_overflow :: "int64 \<Rightarrow> int64 \<Rightarrow> bool" where
  "would_overflow x y \<longleftrightarrow> x = min_val \<or> x = max_val \<or> y = min_val \<or> y = max_val"

definition get_neighbors :: "int64 \<Rightarrow> int64 \<Rightarrow> Cell list" where
  "get_neighbors x y =
    [\<lparr>cell_x = x - 1, cell_y = y - 1\<rparr>, \<lparr>cell_x = x, cell_y = y - 1\<rparr>,
     \<lparr>cell_x = x + 1, cell_y = y - 1\<rparr>,
     \<lparr>cell_x = x - 1, cell_y = y\<rparr>, \<lparr>cell_x = x + 1, cell_y = y\<rparr>,
     \<lparr>cell_x = x - 1, cell_y = y + 1\<rparr>, \<lparr>cell_x = x, cell_y = y + 1\<rparr>,
     \<lparr>cell_x = x + 1, cell_y = y + 1\<rparr>]"

section \<open>Failures\<close>

text \<open>
  What a call can do other than return: throw \<^verbatim>\<open>std::invalid_argument\<close>, or leave defined
  behaviour (a signed 64-bit operation whose result is not representable, a shift by 64
  or more, a read through a null or dangling pointer, an index outside a vector), or
  fail an \<^verbatim>\<open>assert\<close>.  \<open>OutOfFuel\<close> is not a failure of the program: the recursions
  over the node graph get a bound on their depth, and it says that the bound was too
  small.
\<close>

datatype error =
    InvalidArgument string
  | SignedOverflow
  | ShiftOutOfRange
  | NullDereference
  | InvalidPointer
  | OutOfBounds
  | AssertionFailure
  | OutOfFuel

definition bindE :: "error + 'a \<Rightarrow> ('a \<Rightarrow> error + 'b) \<Rightarrow> error + 'b" where
  "bindE m f = (case m of Inl e \<Rightarrow> Inl e | Inr v \<Rightarrow> f v)"

lemma bindE_simps [simp]:
  "bindE (Inl e) f = Inl e"
  "bindE (Inr v) f = f v"
  by (simp_all add: bindE_def)

lemma bindE_cong [fundef_cong]:
  "m = m' \<Longrightarrow> (\<And>v. m' = Inr v \<Longrightarrow> f v = f' v) \<Longrightarrow> bindE m f = bindE m' f'"
  by (cases m') (simp_all add: bindE_def)

section \<open>HashtableEngine (engine\_hashtable.cpp)\<close>

text \<open>\<^verbatim>\<open>++neighbor_count_buffer_[k]\<close>: a missing key is inserted with 0, then incremented.\<close>

definition incr :: "CellCountMap \<Rightarrow> Cell \<Rightarrow> CellCountMap" where
  "incr buf k = AList.update k ((case map_of buf k of None \<Rightarrow> 0 | Some n \<Rightarrow> n) + 1) buf"

text \<open>The body of the first loop of \<^verbatim>\<open>HashtableEngine::tick\<close>.\<close>

definition count_cell :: "Cell \<Rightarrow> CellCountMap \<Rightarrow> CellCountMap" where
  "count_cell cell buf =
    (if would_overflow (cell_x cell) (cell_y cell) then buf
     else
       let b1 = incr buf \<lparr>cell_x = cell_x cell - 1, cell_y = cell_y cell - 1\<rparr>;
           b2 = incr b1 \<lparr>cell_x = cell_x cell, cell_y = cell_y cell - 1\<rparr>;
           b3 = incr b2 \<lparr>cell_x = cell_x cell + 1, cell_y = cell_y cell - 1\<rparr>;
           b4 = incr b3 \<lparr>cell_x = cell_x cell - 1, cell_y = cell_y cell\<rparr>;
           b5 = incr b4 \<lparr>cell_x = cell_x cell + 1, cell_y = cell_y cell\<rparr>;
           b6 = incr b5 \<lparr>cell_x = cell_x cell - 1, cell_y = cell_y cell + 1\<rparr>;
           b7 = incr b6 \<lparr>cell_x = cell_x cell, cell_y = cell_y cell + 1\<rparr>
       in incr b7 \<lparr>cell_x = cell_x cell + 1, cell_y = cell_y cell + 1\<rparr>)"

text \<open>The body of the second loop: the entry \<open>(cell, count)\<close> of the count map.\<close>

definition apply_rule :: "CellSet \<Rightarrow> Cell \<times> int \<Rightarrow> CellSet \<Rightarrow> CellSet" where
  "apply_rule cells e new_cells =
    (if snd e = 3 \<or> (snd e = 2 \<and> fst e \<in> set cells) then List.insert (fst e) new_cells
     else new_cells)"

text \<open>
  Both buffers are members that are cleared before they are used, so a tick starts from
  empty buffers whatever the previous tick left in them.
\<close>

definition HashtableEngine_tick :: "CellSet \<Rightarrow> CellSet" where
  "HashtableEngine_tick cells =
    (let neighbor_count_buffer = fold count_cell cells [];
         new_cells_buffer = fold (apply_rule cells) neighbor_count_buffer []
     in new_cells_buffer)"

section \<open>The transition rule, as the specification words it\<close>

text \<open>
  The number of alive neighbours of \<open>c\<close> in \<open>S\<close>: the cells of \<open>S\<close> among the eight
  neighbour coordinates of \<open>c\<close>, where only the cells of \<open>S\<close> that are not at an
  overflow-risk coordinate are counted.
\<close>

definition alive_neighbors :: "Cell set \<Rightarrow> Cell \<Rightarrow> nat" where
  "alive_neighbors S c =
    card {s. s \<in> S \<and> \<not> would_overflow (cell_x s) (cell_y s)
              \<and> s \<in> set (get_neighbors (cell_x c) (cell_y c))}"

definition next_generation :: "Cell set \<Rightarrow> Cell set" where
  "next_generation S =
    {c. alive_neighbors S c = 3 \<or> (alive_neighbors S c = 2 \<and> c \<in> S)}"

subsection \<open>The count map after the first loop\<close>

definition cnt :: "CellCountMap \<Rightarrow> Cell \<Rightarrow> int" where
  "cnt buf k = (case map_of buf k of None \<Rightarrow> 0 | Some n \<Rightarrow> n)"

definition candidates_of :: "CellSet \<Rightarrow> Cell list" where
  "candidates_of cells = concat (map (\<lambda>c. if would_overflow (cell_x c) (cell_y c) then []
      else get_neighbors (cell_x c) (cell_y c)) cells)"

lemma map_of_incr: "map_of (incr buf k) = (map_of buf)(k \<mapsto> cnt buf k + 1)"
  by (simp add: incr_def cnt_def update_conv')

lemma distinct_incr: "distinct (map fst buf) \<Longrightarrow> distinct (map fst (incr buf k))"
  by (simp add: incr_def distinct_update)

lemma count_cell_fold: "count_cell c buf = fold (\<lambda>k b. incr b k)
   (if would_overflow (cell_x c) (cell_y c) then [] else get_neighbors (cell_x c) (cell_y c)) buf"
  by (simp add: count_cell_def get_neighbors_def Let_def)

lemma fold_count_cell: "fold count_cell cells buf = fold (\<lambda>k b. incr b k) (candidates_of cells) buf"
  by (induction cells arbitrary: buf) (simp_all add: candidates_of_def count_cell_fold)

lemma map_of_fold_incr:
  "map_of (fold (\<lambda>k b. incr b k) ks buf) k =
     (if k \<in> set ks then Some (cnt buf k + int (count_list ks k)) else map_of buf k)"
  by (induction ks arbitrary: buf) (auto simp: map_of_incr cnt_def)

lemma distinct_fold_incr:
  "distinct (map fst buf) \<Longrightarrow> distinct (map fst (fold (\<lambda>k b. incr b k) ks buf))"
  by (induction ks arbitrary: buf) (simp_all add: distinct_incr)

lemma set_fold_apply_rule:
  "set (fold (apply_rule cells) buf acc) =
     set acc \<union> {c. \<exists>n. (c, n) \<in> set buf \<and> (n = 3 \<or> (n = 2 \<and> c \<in> set cells))}"
  by (induction buf arbitrary: acc) (auto simp: apply_rule_def)

lemma distinct_fold_apply_rule:
  "distinct acc \<Longrightarrow> distinct (fold (apply_rule cells) buf acc)"
  by (induction buf arbitrary: acc) (auto simp: apply_rule_def)

lemma distinct_get_neighbors: "distinct (get_neighbors x y)"
  by (simp add: get_neighbors_def)

lemma neighbors_sym:
  "c \<in> set (get_neighbors (cell_x s) (cell_y s)) \<longleftrightarrow> s \<in> set (get_neighbors (cell_x c) (cell_y c))"
proof -
  obtain sx sy where s: "s = \<lparr>cell_x = sx, cell_y = sy\<rparr>" by (cases s) auto
  obtain cx cy where c: "c = \<lparr>cell_x = cx, cell_y = cy\<rparr>" by (cases c) auto
  show ?thesis unfolding s c by (auto simp: get_neighbors_def algebra_simps)
qed

lemma count_list_distinct: "distinct ys \<Longrightarrow> count_list ys c = (if c \<in> set ys then 1 else 0)"
  by (induction ys) auto

lemma count_list_concat_map:
  "(\<And>x. distinct (f x)) \<Longrightarrow> count_list (concat (map f xs)) c = length (filter (\<lambda>x. c \<in> set (f x)) xs)"
  by (induction xs) (simp_all add: count_list_distinct)

lemma count_candidates:
  "distinct cells \<Longrightarrow> count_list (candidates_of cells) c = alive_neighbors (set cells) c"
proof -
  assume d: "distinct cells"
  let ?f = "\<lambda>c. if would_overflow (cell_x c) (cell_y c) then [] else get_neighbors (cell_x c) (cell_y c)"
  have "count_list (candidates_of cells) c = length (filter (\<lambda>x. c \<in> set (?f x)) cells)"
    unfolding candidates_of_def by (rule count_list_concat_map) (simp add: distinct_get_neighbors)
  also have "\<dots> = card ({x. c \<in> set (?f x)} \<inter> set cells)"
    using d by (rule distinct_length_filter)
  also have "{x. c \<in> set (?f x)} \<inter> set cells = {s. s \<in> set cells \<and> \<not> would_overflow (cell_x s) (cell_y s)
              \<and> s \<in> set (get_neighbors (cell_x c) (cell_y c))}"
    using neighbors_sym by auto
  finally show ?thesis by (simp add: alive_neighbors_def)
qed

lemma set_HashtableEngine_tick:
  assumes "distinct cells"
  shows "set (HashtableEngine_tick cells) = next_generation (set cells)"
proof -
  let ?buf = "fold count_cell cells []"
  have dk: "distinct (map fst ?buf)"
    by (simp add: fold_count_cell distinct_fold_incr)
  have mem: "(c, n) \<in> set ?buf \<longleftrightarrow> (c \<in> set (candidates_of cells) \<and> n = int (alive_neighbors (set cells) c))" for c n
  proof -
    have "(c, n) \<in> set ?buf \<longleftrightarrow> map_of ?buf c = Some n"
      using dk by simp
    also have "\<dots> \<longleftrightarrow> (c \<in> set (candidates_of cells) \<and> n = int (count_list (candidates_of cells) c))"
      by (auto simp: fold_count_cell map_of_fold_incr cnt_def)
    finally show ?thesis using assms by (simp add: count_candidates)
  qed
  have pos: "c \<in> set (candidates_of cells) \<longleftrightarrow> alive_neighbors (set cells) c \<noteq> 0" for c
    using count_candidates[OF assms, of c] count_list_0_iff[of "candidates_of cells" c] by auto
  have "c \<in> set (HashtableEngine_tick cells) \<longleftrightarrow> c \<in> next_generation (set cells)" for c
  proof -
    have "c \<in> set (HashtableEngine_tick cells) \<longleftrightarrow>
        (\<exists>n. (c, n) \<in> set ?buf \<and> (n = 3 \<or> (n = 2 \<and> c \<in> set cells)))"
      by (simp add: HashtableEngine_tick_def set_fold_apply_rule)
    also have "\<dots> \<longleftrightarrow> (alive_neighbors (set cells) c \<noteq> 0 \<and>
        (alive_neighbors (set cells) c = 3 \<or> (alive_neighbors (set cells) c = 2 \<and> c \<in> set cells)))"
      unfolding mem pos by fastforce
    also have "\<dots> \<longleftrightarrow> c \<in> next_generation (set cells)"
      by (auto simp: next_generation_def)
    finally show ?thesis .
  qed
  then show ?thesis by blast
qed

lemma distinct_HashtableEngine_tick: "distinct (HashtableEngine_tick cells)"
  by (simp add: HashtableEngine_tick_def distinct_fold_apply_rule)

text \<open>
  Claim C1.  For every alive-set (iterated in any order, each cell once), the tick of the
  HashtableEngine returns exactly the cells that have three alive neighbours, or two
  alive neighbours and are alive themselves, where only the cells that are not at an
  overflow-risk coordinate count as neighbours.
\<close>

theorem HashtableEngine_tick_rule:
  assumes "distinct cells"
  shows "set (HashtableEngine_tick cells) =
    {c. alive_neighbors (set cells) c = 3 \<or> (alive_neighbors (set cells) c = 2 \<and> c \<in> set cells)}"
  using set_HashtableEngine_tick [OF assms] by (simp add: next_generation_def)

theorem HashtableEngine_tick_rule_witness:
  "distinct [\<lparr>cell_x = 0, cell_y = 0\<rparr>, \<lparr>cell_x = 1, cell_y = 0\<rparr>, \<lparr>cell_x = max_val, cell_y = 0\<rparr>]
   \<and> set (HashtableEngine_tick
          [\<lparr>cell_x = 0, cell_y = 0\<rparr>, \<lparr>cell_x = 1, cell_y = 0\<rparr>, \<lparr>cell_x = max_val, cell_y = 0\<rparr>]) =
       {c. alive_neighbors
             (set [\<lparr>cell_x = 0, cell_y = 0\<rparr>, \<lparr>cell_x = 1, cell_y = 0\<rparr>, \<lparr>cell_x = max_val, cell_y = 0\<rparr>]) c = 3
           \<or> (alive_neighbors
             (set [\<lparr>cell_x = 0, cell_y = 0\<rparr>, \<lparr>cell_x = 1, cell_y = 0\<rparr>, \<lparr>cell_x = max_val, cell_y = 0\<rparr>]) c = 2
              \<and> c \<in> set [\<lparr>cell_x = 0, cell_y = 0\<rparr>, \<lparr>cell_x = 1, cell_y = 0\<rparr>, \<lparr>cell_x = max_val, cell_y = 0\<rparr>])}"
proof -
  have d: "distinct [\<lparr>cell_x = 0, cell_y = 0\<rparr>, \<lparr>cell_x = 1, cell_y = 0\<rparr>, \<lparr>cell_x = max_val, cell_y = 0\<rparr>]"
    by (simp add: max_val_def)
  show ?thesis using d HashtableEngine_tick_rule [OF d] by blast
qed

section \<open>SortedVectorEngine (engine\_sorted\_vector.cpp)\<close>

text \<open>The comparator of both sorts and of the binary search.\<close>

definition cell_less :: "Cell \<Rightarrow> Cell \<Rightarrow> bool" where
  "cell_less a b =
    (if cell_x a \<noteq> cell_x b then cell_x a <s cell_x b else cell_y a <s cell_y b)"

text \<open>
  \<^verbatim>\<open>std::sort\<close> with \<^verbatim>\<open>cell_less\<close>: the comparator is the lexicographic order of the
  signed coordinates (lemma \<open>cell_less_iff\<close>), under which two cells that are not
  ordered are equal, so the sorted sequence is unique and is \<open>sort_key cell_key\<close>.
\<close>

definition cell_key :: "Cell \<Rightarrow> int \<times> int" where
  "cell_key c = (sint (cell_x c), sint (cell_y c))"

definition std_sort :: "Cell list \<Rightarrow> Cell list" where
  "std_sort v = sort_key cell_key v"

text \<open>
  \<^verbatim>\<open>std::lower_bound\<close> returns the first position whose element is not ordered before
  the value; on a range partitioned by the comparator that is the length of the prefix
  of elements ordered before it.  \<^verbatim>\<open>std::binary_search\<close> is that position being in range
  and its element not ordered after the value.
\<close>

definition lower_bound :: "'a list \<Rightarrow> 'a \<Rightarrow> ('a \<Rightarrow> 'a \<Rightarrow> bool) \<Rightarrow> nat" where
  "lower_bound v val cmp = length (takeWhile (\<lambda>a. cmp a val) v)"

definition binary_search :: "'a list \<Rightarrow> 'a \<Rightarrow> ('a \<Rightarrow> 'a \<Rightarrow> bool) \<Rightarrow> bool" where
  "binary_search v val cmp =
    (let it = lower_bound v val cmp in it < length v \<and> \<not> cmp val (v ! it))"

text \<open>Step 2 of \<^verbatim>\<open>SortedVectorEngine::tick\<close>: one alive cell's eight \<^verbatim>\<open>push_back\<close>s.\<close>

definition emit_candidates :: "Cell \<Rightarrow> Cell list \<Rightarrow> Cell list" where
  "emit_candidates cell candidates =
    (if would_overflow (cell_x cell) (cell_y cell) then candidates
     else candidates @
       [\<lparr>cell_x = cell_x cell - 1, cell_y = cell_y cell - 1\<rparr>,
        \<lparr>cell_x = cell_x cell, cell_y = cell_y cell - 1\<rparr>,
        \<lparr>cell_x = cell_x cell + 1, cell_y = cell_y cell - 1\<rparr>,
        \<lparr>cell_x = cell_x cell - 1, cell_y = cell_y cell\<rparr>,
        \<lparr>cell_x = cell_x cell + 1, cell_y = cell_y cell\<rparr>,
        \<lparr>cell_x = cell_x cell - 1, cell_y = cell_y cell + 1\<rparr>,
        \<lparr>cell_x = cell_x cell, cell_y = cell_y cell + 1\<rparr>,
        \<lparr>cell_x = cell_x cell + 1, cell_y = cell_y cell + 1\<rparr>])"

text \<open>The inner \<^verbatim>\<open>while\<close>: the length of the run of \<open>current\<close> that starts at \<open>i\<close>.\<close>

function count_run :: "Cell list \<Rightarrow> nat \<Rightarrow> Cell \<Rightarrow> nat \<Rightarrow> nat" where
  "count_run candidates i current count =
    (if i + count < length candidates
        \<and> cell_x (candidates ! (i + count)) = cell_x current
        \<and> cell_y (candidates ! (i + count)) = cell_y current
     then count_run candidates i current (count + 1)
     else count)"
  by pat_completeness auto
termination
  by (relation "measure (\<lambda>(candidates, i, current, count). length candidates - (i + count))") auto

declare count_run.simps [simp del]

lemma count_run_ge: "count \<le> count_run candidates i current count"
  by (induction candidates i current count rule: count_run.induct)
     (subst count_run.simps, auto)

text \<open>The outer \<^verbatim>\<open>while\<close>: steps 4 and 5.\<close>

function walk_runs :: "Cell list \<Rightarrow> Cell list \<Rightarrow> nat \<Rightarrow> CellSet \<Rightarrow> CellSet" where
  "walk_runs sorted_alive candidates i cells =
    (if i < length candidates then
       let current = candidates ! i;
           count = count_run candidates i current 1;
           cells' =
             (if count = 3 then List.insert current cells
              else if count = 2 then
                (if binary_search sorted_alive current cell_less then List.insert current cells
                 else cells)
              else cells)
       in walk_runs sorted_alive candidates (i + count) cells'
     else cells)"
  by pat_completeness auto
termination
proof (relation "measure (\<lambda>(sorted_alive, candidates, i, cells). length candidates - i)")
  show "wf (measure (\<lambda>(sorted_alive, candidates, i, cells). length candidates - i))" by simp
next
  fix sorted_alive candidates :: "Cell list" and i :: nat and cells :: CellSet
    and x xa :: "Cell" and xb :: nat and xc
  assume "i < length candidates" "xa = candidates ! i" "xb = count_run candidates i xa 1"
  then show "((sorted_alive, candidates, i + xb, xc), sorted_alive, candidates, i, cells)
       \<in> measure (\<lambda>(sorted_alive, candidates, i, cells). length candidates - i)"
    using count_run_ge[of 1 candidates i xa] by simp
qed

declare walk_runs.simps [simp del]

definition SortedVectorEngine_tick :: "CellSet \<Rightarrow> CellSet" where
  "SortedVectorEngine_tick cells =
    (let sorted_alive = std_sort cells;
         candidates = std_sort (fold emit_candidates sorted_alive [])
     in if candidates = [] then [] else walk_runs sorted_alive candidates 0 [])"

lemma sint_eq_iff: "sint (a :: int64) = sint b \<longleftrightarrow> a = b"
  by (auto intro: signed_word_eqI)

lemma cell_key_inj: "cell_key a = cell_key b \<longleftrightarrow> a = b"
  by (cases a; cases b) (auto simp: cell_key_def sint_eq_iff)

lemma cell_less_iff: "cell_less a b \<longleftrightarrow> cell_key a < cell_key b"
  using sint_eq_iff[of "cell_x a" "cell_x b"]
  by (auto simp: cell_less_def cell_key_def word_sless_alt)

lemma count_list_insort_key: "count_list (insort_key k x xs) c = count_list (x # xs) c"
  by (induction xs) auto

lemma count_list_sort_key: "count_list (sort_key k xs) c = count_list xs c"
  by (induction xs) (simp_all add: count_list_insort_key)

lemma fold_emit_candidates: "fold emit_candidates cells acc = acc @ candidates_of cells"
  by (induction cells arbitrary: acc)
     (simp_all add: candidates_of_def emit_candidates_def get_neighbors_def)

lemma cell_eq_iff: "cell_x a = cell_x b \<and> cell_y a = cell_y b \<longleftrightarrow> a = (b :: Cell)"
  by (cases a; cases b) auto

lemma count_run_takeWhile:
  "i + count \<le> length cs \<Longrightarrow>
   count_run cs i cur count = count + length (takeWhile (\<lambda>c. c = cur) (drop (i + count) cs))"
proof (induction cs i cur count rule: count_run.induct)
  case (1 cs i cur count)
  have unfold: "count_run cs i cur count =
      (if i + count < length cs \<and> cs ! (i + count) = cur
       then count_run cs i cur (count + 1) else count)"
    by (subst count_run.simps) (simp only: cell_eq_iff conj_assoc)
  show ?case
  proof (cases "i + count < length cs")
    case False
    then show ?thesis unfolding unfold by simp
  next
    case True
    then have d: "drop (i + count) cs = cs ! (i + count) # drop (i + (count + 1)) cs"
      by (simp add: Cons_nth_drop_Suc)
    show ?thesis
    proof (cases "cs ! (i + count) = cur")
      case eq: True
      have "cell_x (cs ! (i + count)) = cell_x cur \<and> cell_y (cs ! (i + count)) = cell_y cur"
        using eq by simp
      with True have "count_run cs i cur (count + 1) =
          count + 1 + length (takeWhile (\<lambda>c. c = cur) (drop (i + (count + 1)) cs))"
        using "1.IH" by simp
      with True eq show ?thesis unfolding unfold d by simp
    next
      case False
      with True show ?thesis unfolding unfold d by simp
    qed
  qed
qed

lemma sorted_dropWhile_notin:
  assumes "sorted (map cell_key (x # rest))"
  shows "x \<notin> set (dropWhile (\<lambda>c. c = x) rest)"
proof
  assume m: "x \<in> set (dropWhile (\<lambda>c. c = x) rest)"
  then obtain y ys where yy: "dropWhile (\<lambda>c. c = x) rest = y # ys"
    by (cases "dropWhile (\<lambda>c. c = x) rest") auto
  then have ne: "dropWhile (\<lambda>c. c = x) rest \<noteq> []" by simp
  have "y \<noteq> x" using hd_dropWhile[OF ne] yy by auto
  have yin: "y \<in> set rest" using yy set_dropWhileD[of y "\<lambda>c. c = x" rest] by simp
  have "sorted (map cell_key rest)" using assms by simp
  then have "sorted (map cell_key (dropWhile (\<lambda>c. c = x) rest))"
    by (induction rest) auto
  then have s2: "sorted (map cell_key (y # ys))" using yy by simp
  have "cell_key x \<le> cell_key y" using assms yin by auto
  moreover have "cell_key y \<le> cell_key x" using s2 m yy \<open>y \<noteq> x\<close> by auto
  ultimately show False using \<open>y \<noteq> x\<close> cell_key_inj by force
qed

lemma count_list_takeWhile_dropWhile:
  "count_list xs c = count_list (takeWhile P xs) c + count_list (dropWhile P xs) c"
  by (induction xs) auto

lemma count_list_all_same: "set ys \<subseteq> {x} \<Longrightarrow> count_list ys x = length ys"
  by (induction ys) auto

lemma count_list_takeWhile_eq:
  "count_list (takeWhile (\<lambda>a. a = x) xs) c = (if c = x then length (takeWhile (\<lambda>a. a = x) xs) else 0)"
proof (cases "c = x")
  case True
  have "set (takeWhile (\<lambda>a. a = x) xs) \<subseteq> {x}" by (auto dest: set_takeWhileD)
  then show ?thesis using True count_list_all_same by metis
next
  case False
  have "c \<notin> set (takeWhile (\<lambda>a. a = x) xs)" using False by (auto dest: set_takeWhileD)
  then show ?thesis using False by simp
qed

lemma count_list_run:
  assumes "sorted (map cell_key (x # rest))"
  shows "count_list (x # rest) c =
    (if c = x then 1 + length (takeWhile (\<lambda>a. a = x) rest)
     else count_list (dropWhile (\<lambda>a. a = x) rest) c)"
  using count_list_takeWhile_dropWhile[of rest c "\<lambda>a. a = x"] count_list_takeWhile_eq[of x rest c]
    sorted_dropWhile_notin[OF assms]
  by (auto simp: count_list_0_iff)

lemma binary_search_sorted:
  assumes "sorted (map cell_key v)"
  shows "binary_search v val cell_less \<longleftrightarrow> val \<in> set v"
  using assms
proof (induction v)
  case Nil
  then show ?case by (simp add: binary_search_def lower_bound_def)
next
  case (Cons a v)
  have le: "\<forall>b \<in> set v. cell_key a \<le> cell_key b" using Cons.prems by simp
  show ?case
  proof (cases "cell_key a < cell_key val")
    case True
    then have "binary_search (a # v) val cell_less \<longleftrightarrow> binary_search v val cell_less"
      by (simp add: binary_search_def lower_bound_def cell_less_iff Let_def)
    moreover have "val \<noteq> a" using True by auto
    ultimately show ?thesis using Cons by auto
  next
    case False
    then have bs: "binary_search (a # v) val cell_less \<longleftrightarrow> \<not> cell_key val < cell_key a"
      by (simp add: binary_search_def lower_bound_def cell_less_iff Let_def)
    show ?thesis
    proof (cases "cell_key val < cell_key a")
      case True
      then have "val \<notin> set (a # v)" using le by force
      with bs True show ?thesis by simp
    next
      case nlt: False
      with False have "cell_key val = cell_key a" by simp
      then have "val = a" by (simp add: cell_key_inj)
      with bs nlt show ?thesis by simp
    qed
  qed
qed

lemma set_walk_runs:
  "sorted (map cell_key cs) \<Longrightarrow> sorted (map cell_key sa) \<Longrightarrow> i \<le> length cs \<Longrightarrow>
    set (walk_runs sa cs i acc) =
      set acc \<union> {c. c \<in> set (drop i cs) \<and>
         (count_list (drop i cs) c = 3 \<or> (count_list (drop i cs) c = 2 \<and> c \<in> set sa))}"
proof (induction sa cs i acc rule: walk_runs.induct)
  case (1 sa cs i acc)
  show ?case
  proof (cases "i < length cs")
    case False
    then show ?thesis by (subst walk_runs.simps) simp
  next
    case True
    define cur where "cur = cs ! i"
    define rest where "rest = drop (Suc i) cs"
    define count where "count = count_run cs i cur 1"
    define acc' where "acc' =
      (if count = 3 then List.insert cur acc
       else if count = 2 then
         (if binary_search sa cur cell_less then List.insert cur acc else acc)
       else acc)"
    define D where "D = dropWhile (\<lambda>a. a = cur) rest"
    have di: "drop i cs = cur # rest"
      using True by (simp add: cur_def rest_def Cons_nth_drop_Suc)
    have cnt: "count = 1 + length (takeWhile (\<lambda>a. a = cur) rest)"
      using True count_run_takeWhile[of i 1 cs cur] by (simp add: count_def rest_def)
    have dD: "drop (i + count) cs = D"
    proof -
      have "drop (i + count) cs = drop (length (takeWhile (\<lambda>a. a = cur) rest)) (drop (Suc i) cs)"
        by (simp add: cnt add.commute)
      then show ?thesis by (simp add: D_def rest_def dropWhile_eq_drop)
    qed
    have le: "i + count \<le> length cs"
    proof -
      have "length (takeWhile (\<lambda>a. a = cur) rest) \<le> length rest" by (rule length_takeWhile_le)
      then show ?thesis using True by (simp add: cnt rest_def)
    qed
    have srt: "sorted (map cell_key (cur # rest))"
    proof -
      have "sorted (drop i (map cell_key cs))" using "1.prems"(1) by (rule sorted_wrt_drop)
      then have "sorted (map cell_key (drop i cs))" by (simp only: drop_map)
      then show ?thesis by (simp only: di)
    qed
    have cl: "count_list (cur # rest) c = (if c = cur then count else count_list D c)" for c
      using count_list_run[OF srt, of c] by (simp add: cnt D_def)
    have notin: "cur \<notin> set D"
      unfolding D_def by (rule sorted_dropWhile_notin[OF srt])
    have mem: "c \<in> set (cur # rest) \<longleftrightarrow> c = cur \<or> c \<in> set D" for c
    proof -
      have "set rest = set (takeWhile (\<lambda>a. a = cur) rest @ dropWhile (\<lambda>a. a = cur) rest)"
        by (simp only: takeWhile_dropWhile_id)
      also have "\<dots> = set (takeWhile (\<lambda>a. a = cur) rest) \<union> set D"
        by (simp only: set_append D_def)
      finally have "set rest = set (takeWhile (\<lambda>a. a = cur) rest) \<union> set D" .
      moreover have "set (takeWhile (\<lambda>a. a = cur) rest) \<subseteq> {cur}"
        by (auto dest: set_takeWhileD)
      ultimately show ?thesis by auto
    qed
    have bs: "binary_search sa cur cell_less \<longleftrightarrow> cur \<in> set sa"
      by (rule binary_search_sorted[OF "1.prems"(2)])
    have step: "walk_runs sa cs i acc = walk_runs sa cs (i + count) acc'"
      using True by (subst walk_runs.simps) (simp add: Let_def cur_def count_def acc'_def)
    have IH: "set (walk_runs sa cs (i + count) acc') =
      set acc' \<union> {c. c \<in> set D \<and> (count_list D c = 3 \<or> (count_list D c = 2 \<and> c \<in> set sa))}"
      using "1.IH"[OF True cur_def count_def acc'_def "1.prems"(1) "1.prems"(2) le]
      by (simp add: dD)
    have acc': "set acc' = set acc \<union> {c. c = cur \<and> (count = 3 \<or> (count = 2 \<and> cur \<in> set sa))}"
      by (auto simp: acc'_def bs)
    show ?thesis
      unfolding step IH acc' di using notin by (auto simp: cl mem simp del: count_list.simps set_simps)
  qed
qed

lemma distinct_walk_runs: "distinct acc \<Longrightarrow> distinct (walk_runs sa cs i acc)"
proof (induction sa cs i acc rule: walk_runs.induct)
  case (1 sa cs i acc)
  show ?case
  proof (cases "i < length cs")
    case False
    then show ?thesis using "1.prems" by (subst walk_runs.simps) simp
  next
    case True
    define cur where "cur = cs ! i"
    define count where "count = count_run cs i cur 1"
    define acc' where "acc' =
      (if count = 3 then List.insert cur acc
       else if count = 2 then
         (if binary_search sa cur cell_less then List.insert cur acc else acc)
       else acc)"
    have step: "walk_runs sa cs i acc = walk_runs sa cs (i + count) acc'"
      using True by (subst walk_runs.simps) (simp add: Let_def cur_def count_def acc'_def)
    have "distinct acc'" using "1.prems" by (simp add: acc'_def)
    then show ?thesis
      unfolding step by (rule "1.IH"[OF True cur_def count_def acc'_def])
  qed
qed

lemma set_SortedVectorEngine_tick:
  assumes "distinct cells"
  shows "set (SortedVectorEngine_tick cells) = next_generation (set cells)"
proof -
  define sa where "sa = std_sort cells"
  define cands where "cands = std_sort (fold emit_candidates sa [])"
  have sa: "set sa = set cells" "distinct sa" "sorted (map cell_key sa)"
    using assms by (simp_all add: sa_def std_sort_def)
  have sc: "sorted (map cell_key cands)" by (simp add: cands_def std_sort_def)
  have cl: "count_list cands c = alive_neighbors (set cells) c" for c
    using count_candidates[OF sa(2), of c]
    by (simp add: cands_def std_sort_def count_list_sort_key fold_emit_candidates sa(1))
  have mem: "c \<in> set cands \<longleftrightarrow> alive_neighbors (set cells) c \<noteq> 0" for c
    using cl[of c] count_list_0_iff[of cands c] by auto
  have tick: "SortedVectorEngine_tick cells = (if cands = [] then [] else walk_runs sa cands 0 [])"
    by (simp add: SortedVectorEngine_tick_def Let_def sa_def cands_def)
  show ?thesis
  proof (cases "cands = []")
    case True
    then have "alive_neighbors (set cells) c = 0" for c using cl[of c] by simp
    then show ?thesis using True by (simp add: tick next_generation_def)
  next
    case False
    have "set (walk_runs sa cands 0 []) =
       {c. c \<in> set cands \<and> (count_list cands c = 3 \<or> (count_list cands c = 2 \<and> c \<in> set sa))}"
      using set_walk_runs[OF sc sa(3), of 0 "[]"] by simp
    also have "\<dots> = next_generation (set cells)"
      unfolding next_generation_def cl mem sa(1) by auto
    finally show ?thesis using False by (simp add: tick)
  qed
qed

lemma distinct_SortedVectorEngine_tick: "distinct (SortedVectorEngine_tick cells)"
  by (simp add: SortedVectorEngine_tick_def Let_def distinct_walk_runs)

definition chebyshev :: "Cell \<Rightarrow> Cell \<Rightarrow> int" where
  "chebyshev a b =
    max \<bar>sint (cell_x a) - sint (cell_x b)\<bar> \<bar>sint (cell_y a) - sint (cell_y b)\<bar>"

lemma sint_max_val: "sint max_val = 2 ^ 63 - 1"
  by (simp add: max_val_def)

lemma sint_min_val: "sint min_val = - (2 ^ 63)"
  by (simp add: min_val_def)

lemma sint_bounds: "- (2 ^ 63) \<le> sint (a :: int64)" "sint (a :: int64) \<le> 2 ^ 63 - 1"
  using sint_ge[of a] sint_lt[of a] by simp_all

lemma sint_succ: "a \<noteq> max_val \<Longrightarrow> sint (a + 1 :: int64) = sint a + 1"
proof -
  assume "a \<noteq> max_val"
  then have "sint a \<noteq> 2 ^ 63 - 1" using sint_eq_iff[of a max_val] by (simp add: sint_max_val)
  then have "sint a + 1 < 2 ^ 63" "- (2 ^ 63) \<le> sint a + 1" using sint_bounds[of a] by simp_all
  then show ?thesis
    by (simp add: sint_word_ariths signed_take_bit_int_eq_self)
qed

lemma sint_pred: "a \<noteq> min_val \<Longrightarrow> sint (a - 1 :: int64) = sint a - 1"
proof -
  assume "a \<noteq> min_val"
  then have "sint a \<noteq> - (2 ^ 63)" using sint_eq_iff[of a min_val] by (simp add: sint_min_val)
  then have "sint a - 1 < 2 ^ 63" "- (2 ^ 63) \<le> sint a - 1" using sint_bounds[of a] by simp_all
  then show ?thesis
    by (simp add: sint_word_ariths signed_take_bit_int_eq_self)
qed

lemma chebyshev_neighbor:
  assumes "\<not> would_overflow (cell_x s) (cell_y s)" and "c \<in> set (get_neighbors (cell_x s) (cell_y s))"
  shows "chebyshev c s = 1"
proof -
  have "cell_x s \<noteq> max_val" "cell_x s \<noteq> min_val" "cell_y s \<noteq> max_val" "cell_y s \<noteq> min_val"
    using assms(1) by (auto simp: would_overflow_def)
  then have "sint (cell_x s + 1) = sint (cell_x s) + 1" "sint (cell_x s - 1) = sint (cell_x s) - 1"
     "sint (cell_y s + 1) = sint (cell_y s) + 1" "sint (cell_y s - 1) = sint (cell_y s) - 1"
    by (simp_all add: sint_succ sint_pred)
  then show ?thesis using assms(2) by (auto simp: get_neighbors_def chebyshev_def)
qed

lemma two_elements: "2 \<le> card A \<Longrightarrow> \<exists>a b. a \<in> A \<and> b \<in> A \<and> a \<noteq> b"
proof -
  assume c: "2 \<le> card A"
  then have f: "finite A" using card.infinite by fastforce
  from c have "A \<noteq> {}" by auto
  then obtain a where a: "a \<in> A" by auto
  have "card (A - {a}) = card A - 1" using f a by simp
  then have "card (A - {a}) \<noteq> 0" using c by simp
  then have "A - {a} \<noteq> {}" by (metis card.empty)
  then obtain b where "b \<in> A" "b \<noteq> a" by auto
  with a show ?thesis by auto
qed

lemma next_generation_two_neighbors:
  assumes "c \<in> next_generation S"
  shows "\<exists>s1 s2. s1 \<in> S \<and> s2 \<in> S \<and> s1 \<noteq> s2
      \<and> \<not> would_overflow (cell_x s1) (cell_y s1) \<and> \<not> would_overflow (cell_x s2) (cell_y s2)
      \<and> c \<in> set (get_neighbors (cell_x s1) (cell_y s1))
      \<and> c \<in> set (get_neighbors (cell_x s2) (cell_y s2))
      \<and> chebyshev c s1 = 1 \<and> chebyshev c s2 = 1"
proof -
  let ?A = "{s. s \<in> S \<and> \<not> would_overflow (cell_x s) (cell_y s)
              \<and> s \<in> set (get_neighbors (cell_x c) (cell_y c))}"
  have "2 \<le> card ?A" using assms by (auto simp: next_generation_def alive_neighbors_def)
  then obtain a b where ab: "a \<in> ?A" "b \<in> ?A" "a \<noteq> b" using two_elements by blast
  have n: "c \<in> set (get_neighbors (cell_x a) (cell_y a))" "c \<in> set (get_neighbors (cell_x b) (cell_y b))"
    using ab neighbors_sym[of c a] neighbors_sym[of c b] by auto
  have "chebyshev c a = 1" "chebyshev c b = 1"
    using ab n chebyshev_neighbor[of a c] chebyshev_neighbor[of b c] by auto
  with ab n show ?thesis by blast
qed

section \<open>Cells at the boundary of the coordinate range\<close>

lemma candidates_all_overflow:
  "(\<And>s. s \<in> set cells \<Longrightarrow> would_overflow (cell_x s) (cell_y s)) \<Longrightarrow> candidates_of cells = []"
  by (induction cells) (simp_all add: candidates_of_def)

lemma HashtableEngine_tick_all_overflow:
  "(\<And>s. s \<in> set cells \<Longrightarrow> would_overflow (cell_x s) (cell_y s)) \<Longrightarrow> HashtableEngine_tick cells = []"
  by (simp add: HashtableEngine_tick_def fold_count_cell candidates_all_overflow)

lemma SortedVectorEngine_tick_all_overflow:
  assumes "\<And>s. s \<in> set cells \<Longrightarrow> would_overflow (cell_x s) (cell_y s)"
  shows "SortedVectorEngine_tick cells = []"
proof -
  have "candidates_of (std_sort cells) = []"
    by (rule candidates_all_overflow) (simp add: std_sort_def assms)
  then show ?thesis
    by (simp add: SortedVectorEngine_tick_def fold_emit_candidates std_sort_def)
qed

text \<open>
  Claim C9.  For the hashtable and the sorted engine: the tick of the empty set is empty;
  every cell of the output is one of the eight neighbour coordinates of a cell of the
  input that is not at overflow risk; and every cell of the output is at Chebyshev
  distance exactly 1 from at least two distinct cells of the input that are not at
  overflow risk.
\<close>

theorem tick_output_near_two_alive_cells:
  assumes "distinct cells"
    and "tick = HashtableEngine_tick \<or> tick = SortedVectorEngine_tick"
  shows "tick [] = []
    \<and> set (tick cells) \<subseteq>
        {c. \<exists>s. s \<in> set cells \<and> \<not> would_overflow (cell_x s) (cell_y s)
               \<and> c \<in> set (get_neighbors (cell_x s) (cell_y s))}
    \<and> (\<forall>c \<in> set (tick cells).
          \<exists>s1 s2. s1 \<in> set cells \<and> s2 \<in> set cells \<and> s1 \<noteq> s2
            \<and> \<not> would_overflow (cell_x s1) (cell_y s1)
            \<and> \<not> would_overflow (cell_x s2) (cell_y s2)
            \<and> chebyshev c s1 = 1 \<and> chebyshev c s2 = 1)"
proof -
  have e: "tick [] = []"
    using assms(2) HashtableEngine_tick_all_overflow[of "[]"] SortedVectorEngine_tick_all_overflow[of "[]"]
    by auto
  have s: "set (tick cells) = next_generation (set cells)"
    using assms set_HashtableEngine_tick set_SortedVectorEngine_tick by auto
  show ?thesis
    unfolding s using e next_generation_two_neighbors[of _ "set cells"] by blast
qed

theorem tick_output_near_two_alive_cells_witness:
  "distinct [\<lparr>cell_x = 0, cell_y = 0\<rparr>, \<lparr>cell_x = 1, cell_y = 0\<rparr>, \<lparr>cell_x = 2, cell_y = 0\<rparr>]
   \<and> \<lparr>cell_x = 1, cell_y = 1\<rparr> \<in> set (SortedVectorEngine_tick
        [\<lparr>cell_x = 0, cell_y = 0\<rparr>, \<lparr>cell_x = 1, cell_y = 0\<rparr>, \<lparr>cell_x = 2, cell_y = 0\<rparr>])
   \<and> (\<exists>s1 s2. s1 \<in> set [\<lparr>cell_x = 0, cell_y = 0\<rparr>, \<lparr>cell_x = 1, cell_y = 0\<rparr>, \<lparr>cell_x = 2, cell_y = 0\<rparr>]
          \<and> s2 \<in> set [\<lparr>cell_x = 0, cell_y = 0\<rparr>, \<lparr>cell_x = 1, cell_y = 0\<rparr>, \<lparr>cell_x = 2, cell_y = 0\<rparr>]
          \<and> s1 \<noteq> s2
          \<and> \<not> would_overflow (cell_x s1) (cell_y s1) \<and> \<not> would_overflow (cell_x s2) (cell_y s2)
          \<and> chebyshev \<lparr>cell_x = 1, cell_y = 1\<rparr> s1 = 1 \<and> chebyshev \<lparr>cell_x = 1, cell_y = 1\<rparr> s2 = 1)"
proof -
  let ?B = "[\<lparr>cell_x = 0, cell_y = 0\<rparr>, \<lparr>cell_x = 1, cell_y = 0\<rparr>, \<lparr>cell_x = 2, cell_y = 0\<rparr>] :: Cell list"
  have d: "distinct ?B" by simp
  have m: "\<lparr>cell_x = 1, cell_y = 1\<rparr> \<in> set (SortedVectorEngine_tick ?B)" by code_simp
  show ?thesis
    using d m tick_output_near_two_alive_cells [OF d, of SortedVectorEngine_tick] by blast
qed

text \<open>
  A cell at overflow risk is skipped as a source of counts: the first loop of the
  hashtable engine leaves the count map as it is, and the sorted engine emits no candidate
  for it.  It is still counted by its neighbours inside the range, and the rule is
  applied to it like to any other cell: it is alive after the tick exactly when two or
  three cells of the alive-set that are not at overflow risk are adjacent to it.
\<close>

lemma overflow_cell_skipped:
  "would_overflow (cell_x c) (cell_y c) \<Longrightarrow>
     count_cell c buf = buf \<and> emit_candidates c candidates = candidates"
  by (simp add: count_cell_def emit_candidates_def)

lemma boundary_cell_alive_iff:
  assumes "distinct cells"
    and "tick = HashtableEngine_tick \<or> tick = SortedVectorEngine_tick"
    and "c \<in> set cells" and "would_overflow (cell_x c) (cell_y c)"
  shows "c \<in> set (tick cells) \<longleftrightarrow>
            alive_neighbors (set cells) c = 2 \<or> alive_neighbors (set cells) c = 3"
proof -
  have s: "set (tick cells) = next_generation (set cells)"
    using assms set_HashtableEngine_tick set_SortedVectorEngine_tick by auto
  show ?thesis using assms(3) by (auto simp: s next_generation_def)
qed

text \<open>
  Claim C4 (every cell of the alive-set at the minimum or maximum coordinate is absent
  from the next generation, in every engine) fails in the hashtable and in the sorted
  engine: in \<open>{(max_val, 0), (max_val - 1, 0), (max_val - 1, 1)}\<close> the cell
  \<open>(max_val, 0)\<close> is at overflow risk, its two neighbours are not, they count it twice,
  and both engines keep it alive.
\<close>

theorem boundary_cell_survives:
  "would_overflow max_val 0
   \<and> \<lparr>cell_x = max_val, cell_y = 0\<rparr> \<in> set
        [\<lparr>cell_x = max_val, cell_y = 0\<rparr>, \<lparr>cell_x = max_val - 1, cell_y = 0\<rparr>, \<lparr>cell_x = max_val - 1, cell_y = 1\<rparr>]
   \<and> \<lparr>cell_x = max_val, cell_y = 0\<rparr> \<in> set (HashtableEngine_tick
        [\<lparr>cell_x = max_val, cell_y = 0\<rparr>, \<lparr>cell_x = max_val - 1, cell_y = 0\<rparr>, \<lparr>cell_x = max_val - 1, cell_y = 1\<rparr>])
   \<and> \<lparr>cell_x = max_val, cell_y = 0\<rparr> \<in> set (SortedVectorEngine_tick
        [\<lparr>cell_x = max_val, cell_y = 0\<rparr>, \<lparr>cell_x = max_val - 1, cell_y = 0\<rparr>, \<lparr>cell_x = max_val - 1, cell_y = 1\<rparr>])"
  by code_simp

section \<open>Engine selection (engine.h, engine.cpp)\<close>

datatype EngineType = Hashtable | Sorted | Hashlife

definition tolower :: "char \<Rightarrow> char" where
  "tolower c = (if 65 \<le> (of_char c :: nat) \<and> (of_char c :: nat) \<le> 90
                then char_of (of_char c + 32 :: nat) else c)"

definition parse_engine_type :: "string \<Rightarrow> error + EngineType" where
  "parse_engine_type s =
    (let lower = map tolower s in
     if lower = ''hashtable'' then Inr Hashtable
     else if lower = ''sorted'' then Inr Sorted
     else if lower = ''hashlife'' then Inr Hashlife
     else Inl (InvalidArgument (''Unknown engine type '' @ [CHR 0x27] @ s @ [CHR 0x27]
                 @ ''. Valid options: hashtable, sorted, hashlife'')))"

definition same_letter :: "char \<Rightarrow> char \<Rightarrow> bool" where
  "same_letter c n \<longleftrightarrow> c = n \<or> (of_char c :: nat) + 32 = of_char n"

definition spelling_of :: "string \<Rightarrow> string \<Rightarrow> bool" where
  "spelling_of name s \<longleftrightarrow> list_all2 same_letter s name"

lemma tolower_eq_iff:
  assumes "97 \<le> (of_char n :: nat)" "(of_char n :: nat) \<le> 122"
  shows "tolower c = n \<longleftrightarrow> same_letter c n"
proof (cases "65 \<le> (of_char c :: nat) \<and> (of_char c :: nat) \<le> 90")
  case True
  then have t: "tolower c = char_of (of_char c + 32 :: nat)" by (simp add: tolower_def)
  have ne: "c \<noteq> n" using True assms by auto
  have "char_of (of_char c + 32 :: nat) = n \<longleftrightarrow> (of_char c :: nat) + 32 = of_char n"
  proof
    assume "char_of (of_char c + 32 :: nat) = n"
    then have "(of_char n :: nat) = of_char (char_of (of_char c + 32 :: nat))" by simp
    also have "\<dots> = (of_char c + 32) mod 256" by (simp only: of_char_of)
    also have "\<dots> = of_char c + 32" using True by simp
    finally show "(of_char c :: nat) + 32 = of_char n" by simp
  next
    assume "(of_char c :: nat) + 32 = of_char n"
    then show "char_of (of_char c + 32 :: nat) = n" by simp
  qed
  with t ne show ?thesis by (simp add: same_letter_def)
next
  case False
  then show ?thesis using assms by (auto simp: tolower_def same_letter_def)
qed

lemma map_tolower_eq_iff:
  "list_all (\<lambda>n. 97 \<le> (of_char n :: nat) \<and> (of_char n :: nat) \<le> 122) name \<Longrightarrow>
   map tolower s = name \<longleftrightarrow> spelling_of name s"
  unfolding spelling_of_def
proof (induction name arbitrary: s)
  case Nil
  then show ?case by simp
next
  case (Cons n name)
  show ?case
  proof (cases s)
    case Nil
    then show ?thesis by simp
  next
    case (Cons c s')
    then show ?thesis using Cons.prems Cons.IH[of s'] by (simp add: tolower_eq_iff)
  qed
qed

lemma lower_hashtable: "list_all (\<lambda>n. 97 \<le> (of_char n :: nat) \<and> (of_char n :: nat) \<le> 122) ''hashtable''"
  by simp
lemma lower_sorted: "list_all (\<lambda>n. 97 \<le> (of_char n :: nat) \<and> (of_char n :: nat) \<le> 122) ''sorted''"
  by simp
lemma lower_hashlife: "list_all (\<lambda>n. 97 \<le> (of_char n :: nat) \<and> (of_char n :: nat) \<le> 122) ''hashlife''"
  by simp

text \<open>
  Claim C7, as amended.  \<^verbatim>\<open>parse_engine_type\<close> succeeds exactly for the spellings, in any
  mix of upper and lower case, of the three names \<open>hashtable\<close>, \<open>sorted\<close> and \<open>hashlife\<close>,
  and returns the engine named; every other string throws \<^verbatim>\<open>std::invalid_argument\<close>
  with the message naming the string and the three valid options.
\<close>

theorem parse_engine_type_accepts:
  "parse_engine_type s =
     (if spelling_of ''hashtable'' s then Inr Hashtable
      else if spelling_of ''sorted'' s then Inr Sorted
      else if spelling_of ''hashlife'' s then Inr Hashlife
      else Inl (InvalidArgument (''Unknown engine type '' @ [CHR 0x27] @ s @ [CHR 0x27]
                 @ ''. Valid options: hashtable, sorted, hashlife'')))"
  unfolding parse_engine_type_def Let_def
    map_tolower_eq_iff[OF lower_hashtable] map_tolower_eq_iff[OF lower_sorted]
    map_tolower_eq_iff[OF lower_hashlife]
  by (rule refl)

text \<open>
  The names \<open>counting\<close>, \<open>sorting\<close> and \<open>quadtree\<close> are not accepted, and a name outside
  that set is.
\<close>

theorem parse_engine_type_spec_names:
  "isl (parse_engine_type ''counting'') \<and> isl (parse_engine_type ''sorting'')
    \<and> isl (parse_engine_type ''quadtree'') \<and> parse_engine_type ''HashTable'' = Inr Hashtable"
  by code_simp

section \<open>The orchestrator (game\_of\_life.cpp)\<close>

type_synonym SimulationEngine = "CellSet \<Rightarrow> error + CellSet"

record GameOfLife =
  live_cells :: CellSet
  engine :: SimulationEngine

definition GameOfLife_tick :: "GameOfLife \<Rightarrow> error option \<times> GameOfLife" where
  "GameOfLife_tick g =
    (case engine g (live_cells g) of
       Inl e \<Rightarrow> (Some e, g)
     | Inr cells \<Rightarrow> (None, g\<lparr>live_cells := cells\<rparr>))"

function run_loop :: "int \<Rightarrow> int \<Rightarrow> GameOfLife \<Rightarrow> error option \<times> GameOfLife" where
  "run_loop i iterations g =
    (if i < iterations then
       (case GameOfLife_tick g of
          (Some e, g') \<Rightarrow> (Some e, g')
        | (None, g') \<Rightarrow> run_loop (i + 1) iterations g')
     else (None, g))"
  by pat_completeness auto
termination
  by (relation "measure (\<lambda>(i, iterations, g). nat (iterations - i))") auto

declare run_loop.simps [simp del]

definition GameOfLife_run :: "int \<Rightarrow> GameOfLife \<Rightarrow> error option \<times> GameOfLife" where
  "GameOfLife_run iterations g =
    (if iterations < 0 then (Some (InvalidArgument ''Iterations must be non-negative''), g)
     else run_loop 0 iterations g)"

definition tick_unless_failed :: "error option \<times> GameOfLife \<Rightarrow> error option \<times> GameOfLife" where
  "tick_unless_failed r = (case fst r of Some e \<Rightarrow> r | None \<Rightarrow> GameOfLife_tick (snd r))"

lemma tick_unless_failed_simps:
  "tick_unless_failed (None, g) = GameOfLife_tick g"
  "tick_unless_failed (Some e, g) = (Some e, g)"
  by (simp_all add: tick_unless_failed_def)

lemma tick_unless_failed_Some: "(tick_unless_failed ^^ k) (Some e, g) = (Some e, g)"
  by (induction k) (simp_all add: tick_unless_failed_simps)

lemma run_loop_iterate:
  "i \<le> n \<Longrightarrow> run_loop i n g = (tick_unless_failed ^^ nat (n - i)) (None, g)"
proof (induction i n g rule: run_loop.induct)
  case (1 i n g)
  show ?case
  proof (cases "i < n")
    case False
    with "1.prems" show ?thesis by (simp add: run_loop.simps)
  next
    case True
    then have k: "nat (n - i) = Suc (nat (n - (i + 1)))" by simp
    obtain e g' where t: "GameOfLife_tick g = (e, g')" by (cases "GameOfLife_tick g")
    show ?thesis
    proof (cases e)
      case None
      with True t "1.IH" show ?thesis
        unfolding k funpow_Suc_right
        by (simp add: run_loop.simps[of i] tick_unless_failed_simps)
    next
      case (Some a)
      with True t show ?thesis
        unfolding k funpow_Suc_right
        by (simp add: run_loop.simps[of i] tick_unless_failed_simps tick_unless_failed_Some)
    qed
  qed
qed

text \<open>
  Claim C10.  \<^verbatim>\<open>run(n)\<close> throws \<^verbatim>\<open>std::invalid_argument\<close> for a negative \<open>n\<close> and
  leaves the object as it was; for \<open>n \<ge> 0\<close> it is \<open>n\<close> ticks in a row (none for
  \<open>n = 0\<close>), where a tick that fails ends the run.
\<close>

theorem GameOfLife_run_iterates:
  "GameOfLife_run n g =
     (if n < 0 then (Some (InvalidArgument ''Iterations must be non-negative''), g)
      else (tick_unless_failed ^^ nat n) (None, g))"
  by (simp add: GameOfLife_run_def run_loop_iterate)

lemma funpow_total_engine:
  "engine g = (\<lambda>cells. Inr (f cells)) \<Longrightarrow>
   (tick_unless_failed ^^ k) (None, g) = (None, g\<lparr>live_cells := (f ^^ k) (live_cells g)\<rparr>)"
  by (induction k) (simp_all add: tick_unless_failed_simps GameOfLife_tick_def)

section \<open>HashLifeEngine: the node pool (engine\_hashlife.cpp)\<close>

text \<open>
  The pool owns every \<^verbatim>\<open>QuadNode\<close>.  It is modelled as an explicit store: \<open>arena\<close> is
  the sequence of nodes in allocation order, a \<^verbatim>\<open>QuadNode*\<close> is the index of a node in
  it (\<open>None\<close> is \<^verbatim>\<open>nullptr\<close>), and a field read through a pointer that is null or
  outside the arena is a failure.  \<^verbatim>\<open>canon_\<close> is an association list whose key is the
  four child pointers, which is all that \<^verbatim>\<open>QuadNodeHash\<close> and \<^verbatim>\<open>QuadNodeEqual\<close> read.
  \<^verbatim>\<open>population\<close> is an unbounded integer: it never exceeds the number of alive cells
  of the tick.  The chunked allocation of \<^verbatim>\<open>alloc_raw\<close> is left out: only the node it
  returns matters.  The \<^verbatim>\<open>assert\<close> of \<^verbatim>\<open>make\<close> is kept as a failure.
\<close>
record ChunkKey =
  key_cx :: int64
  key_cy :: int64

type_synonym ptr = "nat option"

record QuadNode =
  level :: int
  population :: int
  nw :: ptr
  ne :: ptr
  sw :: ptr
  se :: ptr
  step1_result :: ptr

type_synonym QuadKey = "ptr \<times> ptr \<times> ptr \<times> ptr"

record NodePool =
  dead_cell :: ptr
  alive_cell :: ptr
  arena :: "QuadNode list"
  canon :: "(QuadKey \<times> ptr) list"
  empty_cache :: "ptr list"

text \<open>\<^verbatim>\<open>p->f\<close>, \<^verbatim>\<open>p->f->g\<close> and \<^verbatim>\<open>p->f->g->h\<close>.\<close>

definition deref :: "NodePool \<Rightarrow> ptr \<Rightarrow> error + QuadNode" where
  "deref P p =
    (case p of
       None \<Rightarrow> Inl NullDereference
     | Some i \<Rightarrow> if i < length (arena P) then Inr (arena P ! i) else Inl InvalidPointer)"

definition field :: "(QuadNode \<Rightarrow> 'a) \<Rightarrow> ptr \<Rightarrow> NodePool \<Rightarrow> error + 'a" where
  "field f p P = bindE (deref P p) (\<lambda>n. Inr (f n))"

definition field2 :: "(QuadNode \<Rightarrow> ptr) \<Rightarrow> (QuadNode \<Rightarrow> 'a) \<Rightarrow> ptr \<Rightarrow> NodePool \<Rightarrow> error + 'a" where
  "field2 f g p P = bindE (field f p P) (\<lambda>q. field g q P)"

definition field3 ::
  "(QuadNode \<Rightarrow> ptr) \<Rightarrow> (QuadNode \<Rightarrow> ptr) \<Rightarrow> (QuadNode \<Rightarrow> 'a) \<Rightarrow> ptr \<Rightarrow> NodePool \<Rightarrow> error + 'a" where
  "field3 f g h p P = bindE (field2 f g p P) (\<lambda>q. field h q P)"

definition alloc_raw ::
  "int \<Rightarrow> int \<Rightarrow> ptr \<Rightarrow> ptr \<Rightarrow> ptr \<Rightarrow> ptr \<Rightarrow> NodePool \<Rightarrow> ptr \<times> NodePool" where
  "alloc_raw lvl pop a b c d P =
    (Some (length (arena P)),
     P\<lparr>arena := arena P @
        [\<lparr>level = lvl, population = pop, nw = a, ne = b, sw = c, se = d, step1_result = None\<rparr>]\<rparr>)"

text \<open>
  \<^verbatim>\<open>NodePool::clear\<close>, which leaves the pool as the constructor does: the two leaves, an
  empty canonical map and an empty cache.
\<close>

definition NodePool_clear :: NodePool where
  "NodePool_clear =
    (let P0 = \<lparr>dead_cell = None, alive_cell = None, arena = [], canon = [], empty_cache = []\<rparr>;
         (d, P1) = alloc_raw 0 0 None None None None P0;
         (a, P2) = alloc_raw 0 1 None None None None (P1\<lparr>dead_cell := d\<rparr>)
     in P2\<lparr>alive_cell := a\<rparr>)"

definition leaf :: "bool \<Rightarrow> NodePool \<Rightarrow> ptr" where
  "leaf alive P = (if alive then alive_cell P else dead_cell P)"

definition make :: "ptr \<Rightarrow> ptr \<Rightarrow> ptr \<Rightarrow> ptr \<Rightarrow> NodePool \<Rightarrow> error + (ptr \<times> NodePool)" where
  "make a b c d P =
    bindE (deref P a) (\<lambda>na. bindE (deref P b) (\<lambda>nb.
    bindE (deref P c) (\<lambda>nc. bindE (deref P d) (\<lambda>nd.
      if \<not> (level na = level nb \<and> level nb = level nc \<and> level nc = level nd)
      then Inl AssertionFailure
      else
        (case map_of (canon P) (a, b, c, d) of
           Some node \<Rightarrow> Inr (node, P)
         | None \<Rightarrow>
             let lvl = level na + 1;
                 pop = population na + population nb + population nc + population nd;
                 (node, P1) = alloc_raw lvl pop a b c d P
             in Inr (node, P1\<lparr>canon := AList.update (a, b, c, d) node (canon P1)\<rparr>))))))"

text \<open>
  A call of \<^verbatim>\<open>make\<close> whose arguments are field reads.  The arguments of a call are
  evaluated from left to right (C++ leaves the order open; the reads do not change the
  pool, and a call with several \<^verbatim>\<open>make\<close> or \<^verbatim>\<open>slow_step\<close> arguments returns
  canonical nodes, so the order does not show in the result).
\<close>

definition make_of ::
  "NodePool \<Rightarrow> error + ptr \<Rightarrow> error + ptr \<Rightarrow> error + ptr \<Rightarrow> error + ptr
     \<Rightarrow> error + (ptr \<times> NodePool)" where
  "make_of P a b c d =
    bindE a (\<lambda>a'. bindE b (\<lambda>b'. bindE c (\<lambda>c'. bindE d (\<lambda>d'. make a' b' c' d' P))))"

function empty_node :: "int \<Rightarrow> NodePool \<Rightarrow> error + (ptr \<times> NodePool)" where
  "empty_node lvl P =
    (if lvl = 0 then Inr (dead_cell P, P)
     else if lvl < 0 then Inl OutOfBounds
     else if lvl < int (length (empty_cache P)) \<and> empty_cache P ! nat lvl \<noteq> None
       then Inr (empty_cache P ! nat lvl, P)
     else
       let P1 = (if lvl \<ge> int (length (empty_cache P))
                 then P\<lparr>empty_cache := empty_cache P
                        @ replicate (nat lvl + 1 - length (empty_cache P)) None\<rparr>
                 else P)
       in bindE (empty_node (lvl - 1) P1) (\<lambda>(sub, P2).
          bindE (make sub sub sub sub P2) (\<lambda>(node, P3).
          Inr (node, P3\<lparr>empty_cache := (empty_cache P3)[nat lvl := node]\<rparr>))))"
  by pat_completeness auto
termination
  by (relation "measure (\<lambda>(lvl, P). nat lvl)") auto

declare empty_node.simps [simp del]

text \<open>The assignment \<^verbatim>\<open>node->step1_result = r\<close>.\<close>

definition store_step1 :: "ptr \<Rightarrow> ptr \<Rightarrow> NodePool \<Rightarrow> error + NodePool" where
  "store_step1 node r P =
    (case node of
       None \<Rightarrow> Inl NullDereference
     | Some i \<Rightarrow>
         if i < length (arena P)
         then Inr (P\<lparr>arena := (arena P)[i := (arena P ! i)\<lparr>step1_result := r\<rparr>]\<rparr>)
         else Inl InvalidPointer)"

definition center :: "ptr \<Rightarrow> NodePool \<Rightarrow> error + (ptr \<times> NodePool)" where
  "center node P =
    make_of P (field2 nw se node P) (field2 ne sw node P) (field2 sw ne node P)
      (field2 se nw node P)"

text \<open>
  \<^verbatim>\<open>step_4x4\<close>: the array \<^verbatim>\<open>g[x][y]\<close> of the sixteen leaf populations, the lambda
  \<^verbatim>\<open>life_rule\<close> with its two loops, and the node made of the four results.
\<close>

definition grid_4x4 :: "ptr \<Rightarrow> NodePool \<Rightarrow> error + int list list" where
  "grid_4x4 node P =
    bindE (field3 nw nw population node P) (\<lambda>g00.
    bindE (field3 nw ne population node P) (\<lambda>g10.
    bindE (field3 ne nw population node P) (\<lambda>g20.
    bindE (field3 ne ne population node P) (\<lambda>g30.
    bindE (field3 nw sw population node P) (\<lambda>g01.
    bindE (field3 nw se population node P) (\<lambda>g11.
    bindE (field3 ne sw population node P) (\<lambda>g21.
    bindE (field3 ne se population node P) (\<lambda>g31.
    bindE (field3 sw nw population node P) (\<lambda>g02.
    bindE (field3 sw ne population node P) (\<lambda>g12.
    bindE (field3 se nw population node P) (\<lambda>g22.
    bindE (field3 se ne population node P) (\<lambda>g32.
    bindE (field3 sw sw population node P) (\<lambda>g03.
    bindE (field3 sw se population node P) (\<lambda>g13.
    bindE (field3 se sw population node P) (\<lambda>g23.
    bindE (field3 se se population node P) (\<lambda>g33.
      Inr [[g00, g01, g02, g03], [g10, g11, g12, g13],
           [g20, g21, g22, g23], [g30, g31, g32, g33]]))))))))))))))))"

definition life_rule :: "int list list \<Rightarrow> int \<Rightarrow> int \<Rightarrow> bool" where
  "life_rule g cx cy =
    (let count =
           fold (\<lambda>dy count.
             fold (\<lambda>dx count.
               if dx = 0 \<and> dy = 0 then count
               else count + g ! nat (cx + dx) ! nat (cy + dy)) [-1, 0, 1] count)
             [-1, 0, 1] 0;
         alive = (g ! nat cx ! nat cy \<noteq> 0)
     in count = 3 \<or> (count = 2 \<and> alive))"

definition step_4x4 :: "ptr \<Rightarrow> NodePool \<Rightarrow> error + (ptr \<times> NodePool)" where
  "step_4x4 node P =
    bindE (grid_4x4 node P) (\<lambda>g.
      make (leaf (life_rule g 1 1) P) (leaf (life_rule g 2 1) P)
           (leaf (life_rule g 1 2) P) (leaf (life_rule g 2 2) P) P)"

text \<open>
  \<^verbatim>\<open>slow_step\<close> recurses on nodes it has just made, so the recursion is bounded by fuel:
  one unit per level is enough (see \<open>slow_step_spec\<close> below), and \<open>OutOfFuel\<close> is a
  value of the model only.
\<close>

fun slow_step :: "nat \<Rightarrow> ptr \<Rightarrow> NodePool \<Rightarrow> error + (ptr \<times> NodePool)" where
  "slow_step 0 node P = Inl OutOfFuel"
| "slow_step (Suc fuel) node P =
    bindE (deref P node) (\<lambda>n.
      if step1_result n \<noteq> None then Inr (step1_result n, P)
      else if population n = 0 then
        bindE (empty_node (level n - 1) P) (\<lambda>(r, P1).
        bindE (store_step1 node r P1) (\<lambda>P2. Inr (r, P2)))
      else if level n = 2 then
        bindE (step_4x4 node P) (\<lambda>(r, P1).
        bindE (store_step1 node r P1) (\<lambda>P2. Inr (r, P2)))
      else
        let n00 = nw n; n01 = ne n; n10 = sw n; n11 = se n in
        bindE (make_of P (field ne n00 P) (field nw n01 P) (field se n00 P) (field sw n01 P))
          (\<lambda>(c01, P).
        bindE (make_of P (field sw n00 P) (field se n00 P) (field nw n10 P) (field ne n10 P))
          (\<lambda>(c10, P).
        bindE (make_of P (field se n00 P) (field sw n01 P) (field ne n10 P) (field nw n11 P))
          (\<lambda>(c11, P).
        bindE (make_of P (field sw n01 P) (field se n01 P) (field nw n11 P) (field ne n11 P))
          (\<lambda>(c12, P).
        bindE (make_of P (field ne n10 P) (field nw n11 P) (field se n10 P) (field sw n11 P))
          (\<lambda>(c21, P).
        bindE (center n00 P) (\<lambda>(r00, P).
        bindE (center c01 P) (\<lambda>(r01, P).
        bindE (center n01 P) (\<lambda>(r02, P).
        bindE (center c10 P) (\<lambda>(r10, P).
        bindE (center c11 P) (\<lambda>(r11, P).
        bindE (center c12 P) (\<lambda>(r12, P).
        bindE (center n10 P) (\<lambda>(r20, P).
        bindE (center c21 P) (\<lambda>(r21, P).
        bindE (center n11 P) (\<lambda>(r22, P).
        bindE (make r00 r01 r10 r11 P) (\<lambda>(q00, P).
        bindE (slow_step fuel q00 P) (\<lambda>(s00, P).
        bindE (make r01 r02 r11 r12 P) (\<lambda>(q01, P).
        bindE (slow_step fuel q01 P) (\<lambda>(s01, P).
        bindE (make r10 r11 r20 r21 P) (\<lambda>(q10, P).
        bindE (slow_step fuel q10 P) (\<lambda>(s10, P).
        bindE (make r11 r12 r21 r22 P) (\<lambda>(q11, P).
        bindE (slow_step fuel q11 P) (\<lambda>(s11, P).
        bindE (make s00 s01 s10 s11 P) (\<lambda>(r, P).
        bindE (store_step1 node r P) (\<lambda>P. Inr (r, P))))))))))))))))))))))))))"

section \<open>HashLifeEngine: one cluster\<close>

text \<open>
  The \<^verbatim>\<open>int64_t\<close> arithmetic of the engine is checked: a sum or difference that leaves
  the range of \<^verbatim>\<open>int64_t\<close> is undefined behaviour in C++ and the failure
  \<open>SignedOverflow\<close> here.  \<^verbatim>\<open>int64_t(1) << n\<close> is defined for \<open>0 \<le> n < 64\<close>.
\<close>
definition in_int64 :: "int \<Rightarrow> bool" where
  "in_int64 v \<longleftrightarrow> - (2 ^ 63) \<le> v \<and> v < 2 ^ 63"

definition add64 :: "int64 \<Rightarrow> int64 \<Rightarrow> error + int64" where
  "add64 a b = (if in_int64 (sint a + sint b) then Inr (a + b) else Inl SignedOverflow)"

definition sub64 :: "int64 \<Rightarrow> int64 \<Rightarrow> error + int64" where
  "sub64 a b = (if in_int64 (sint a - sint b) then Inr (a - b) else Inl SignedOverflow)"

definition shl1 :: "int \<Rightarrow> error + int64" where
  "shl1 n = (if 0 \<le> n \<and> n < 64 then Inr (push_bit (nat n) 1) else Inl ShiftOutOfRange)"

definition div64 :: "int64 \<Rightarrow> int64 \<Rightarrow> int64" where
  "div64 a b = word_of_int (sint a sdiv sint b)"

definition smin :: "int64 \<Rightarrow> int64 \<Rightarrow> int64" where
  "smin a b = (if b <s a then b else a)"

definition smax :: "int64 \<Rightarrow> int64 \<Rightarrow> int64" where
  "smax a b = (if a <s b then b else a)"

text \<open>\<^verbatim>\<open>SortedCells\<close>: the cells sorted by \<open>(x, y)\<close>, and its two range queries.\<close>

definition SortedCells_build :: "CellSet \<Rightarrow> Cell list" where
  "SortedCells_build cs = std_sort cs"

fun scan_columns :: "Cell list \<Rightarrow> int64 \<Rightarrow> int64 \<Rightarrow> int64 \<Rightarrow> bool" where
  "scan_columns [] x_end y y_end = False"
| "scan_columns (c # cs) x_end y y_end =
    (if cell_x c <s x_end then
       (if y \<le>s cell_y c \<and> cell_y c <s y_end then True
        else scan_columns cs x_end y y_end)
     else False)"

definition has_cell_in :: "Cell list \<Rightarrow> int64 \<Rightarrow> int64 \<Rightarrow> int64 \<Rightarrow> error + bool" where
  "has_cell_in cells x y sz =
    (let it = lower_bound cells \<lparr>cell_x = x, cell_y = 0\<rparr> (\<lambda>a b. cell_x a <s cell_x b) in
     bindE (add64 x sz) (\<lambda>x_end.
     bindE (add64 y sz) (\<lambda>y_end.
       Inr (scan_columns (drop it cells) x_end y y_end))))"

definition contains :: "Cell list \<Rightarrow> int64 \<Rightarrow> int64 \<Rightarrow> bool" where
  "contains cells x y =
    (let it = lower_bound cells \<lparr>cell_x = x, cell_y = y\<rparr>
                (\<lambda>a b. cell_x a <s cell_x b \<or> (cell_x a = cell_x b \<and> cell_y a <s cell_y b))
     in it < length cells \<and> cell_x (cells ! it) = x \<and> cell_y (cells ! it) = y)"

function build_recursive ::
  "Cell list \<Rightarrow> int64 \<Rightarrow> int64 \<Rightarrow> int \<Rightarrow> NodePool \<Rightarrow> error + (ptr \<times> NodePool)" where
  "build_recursive sorted_cells x y lvl P =
    bindE (shl1 lvl) (\<lambda>sz.
    bindE (has_cell_in sorted_cells x y sz) (\<lambda>occupied.
      if \<not> occupied then empty_node lvl P
      else if lvl = 0 then Inr (leaf (contains sorted_cells x y) P, P)
      else
        let half = signed_drop_bit 1 sz in
        bindE (build_recursive sorted_cells x y (lvl - 1) P) (\<lambda>(a, P).
        bindE (add64 x half) (\<lambda>xh.
        bindE (build_recursive sorted_cells xh y (lvl - 1) P) (\<lambda>(b, P).
        bindE (add64 y half) (\<lambda>yh.
        bindE (build_recursive sorted_cells x yh (lvl - 1) P) (\<lambda>(c, P).
        bindE (build_recursive sorted_cells xh yh (lvl - 1) P) (\<lambda>(d, P).
          make a b c d P))))))))"
  by pat_completeness auto
termination
  by (relation "measure (\<lambda>(sorted_cells, x, y, lvl, P). nat lvl)")
     (auto simp: shl1_def split: if_splits)

declare build_recursive.simps [simp del]

definition expand ::
  "ptr \<Rightarrow> int64 \<Rightarrow> int64 \<Rightarrow> NodePool \<Rightarrow> error + ((ptr \<times> int64 \<times> int64) \<times> NodePool)" where
  "expand node ox oy P =
    bindE (field level node P) (\<lambda>lvl.
    bindE (shl1 (lvl - 1)) (\<lambda>half.
    bindE (empty_node (lvl - 1) P) (\<lambda>(e, P).
    bindE (sub64 ox half) (\<lambda>ox.
    bindE (sub64 oy half) (\<lambda>oy.
    bindE (make_of P (Inr e) (Inr e) (Inr e) (field nw node P)) (\<lambda>(q0, P).
    bindE (make_of P (Inr e) (Inr e) (field ne node P) (Inr e)) (\<lambda>(q1, P).
    bindE (make_of P (Inr e) (field sw node P) (Inr e) (Inr e)) (\<lambda>(q2, P).
    bindE (make_of P (field se node P) (Inr e) (Inr e) (Inr e)) (\<lambda>(q3, P).
    bindE (make q0 q1 q2 q3 P) (\<lambda>(r, P).
      Inr ((r, ox, oy), P)))))))))))"

text \<open>
  \<^verbatim>\<open>flatten\<close> and the two loops of \<^verbatim>\<open>step_cluster\<close> (the level search and
  \<^verbatim>\<open>while (root->level < 2)\<close>); the recursion on the stored tree and the second loop
  take fuel.
\<close>

fun flatten ::
  "nat \<Rightarrow> ptr \<Rightarrow> int64 \<Rightarrow> int64 \<Rightarrow> CellSet \<Rightarrow> NodePool \<Rightarrow> error + CellSet" where
  "flatten 0 node x y cells P = Inl OutOfFuel"
| "flatten (Suc fuel) node x y cells P =
    bindE (deref P node) (\<lambda>n.
      if population n = 0 then Inr cells
      else if level n = 0 then
        (if population n > 0 then Inr (List.insert \<lparr>cell_x = x, cell_y = y\<rparr> cells)
         else Inr cells)
      else
        bindE (shl1 (level n - 1)) (\<lambda>half.
        bindE (flatten fuel (nw n) x y cells P) (\<lambda>cells.
        bindE (add64 x half) (\<lambda>xh.
        bindE (flatten fuel (ne n) xh y cells P) (\<lambda>cells.
        bindE (add64 y half) (\<lambda>yh.
        bindE (flatten fuel (sw n) x yh cells P) (\<lambda>cells.
          flatten fuel (se n) xh yh cells P)))))))"

function find_level :: "int \<Rightarrow> int64 \<Rightarrow> error + int" where
  "find_level lvl rng =
    bindE (shl1 lvl) (\<lambda>sz.
      if sz <s rng then find_level (lvl + 1) rng else Inr lvl)"
  by pat_completeness auto
termination
  by (relation "measure (\<lambda>(lvl, rng). nat (64 - lvl))")
     (auto simp: shl1_def split: if_splits)

declare find_level.simps [simp del]

fun expand_while ::
  "nat \<Rightarrow> ptr \<Rightarrow> int64 \<Rightarrow> int64 \<Rightarrow> NodePool \<Rightarrow> error + ((ptr \<times> int64 \<times> int64) \<times> NodePool)" where
  "expand_while 0 root ox oy P = Inl OutOfFuel"
| "expand_while (Suc fuel) root ox oy P =
    bindE (field level root P) (\<lambda>lvl.
      if lvl < 2 then
        bindE (expand root ox oy P) (\<lambda>((root, ox, oy), P). expand_while fuel root ox oy P)
      else Inr ((root, ox, oy), P))"

definition step_cluster :: "CellSet \<Rightarrow> NodePool \<Rightarrow> error + (CellSet \<times> NodePool)" where
  "step_cluster cells P =
    (if cells = [] then Inr (cells, P)
     else
       let min_x = fold (\<lambda>cell m. smin m (cell_x cell)) cells max_val;
           max_x = fold (\<lambda>cell m. smax m (cell_x cell)) cells min_val;
           min_y = fold (\<lambda>cell m. smin m (cell_y cell)) cells max_val;
           max_y = fold (\<lambda>cell m. smax m (cell_y cell)) cells min_val
       in
       bindE (bindE (sub64 max_x min_x) (\<lambda>d. add64 d 1)) (\<lambda>range_x.
       bindE (bindE (sub64 max_y min_y) (\<lambda>d. add64 d 1)) (\<lambda>range_y.
       let rng = smax range_x range_y in
       bindE (find_level 1 rng) (\<lambda>lvl.
       bindE (shl1 lvl) (\<lambda>sz.
       bindE (bindE (sub64 sz range_x) (\<lambda>d. sub64 min_x (div64 d 2))) (\<lambda>ox.
       bindE (bindE (sub64 sz range_y) (\<lambda>d. sub64 min_y (div64 d 2))) (\<lambda>oy.
       let sorted_cells = SortedCells_build cells in
       bindE (build_recursive sorted_cells ox oy lvl P) (\<lambda>(root, P).
       bindE (expand_while 2 root ox oy P) (\<lambda>((root, ox, oy), P).
       bindE (expand root ox oy P) (\<lambda>((root, ox, oy), P).
       bindE (expand root ox oy P) (\<lambda>((root, ox, oy), P).
       bindE (field level root P) (\<lambda>root_level.
       bindE (slow_step (nat root_level) root P) (\<lambda>(result, P).
       bindE (shl1 (root_level - 2)) (\<lambda>quarter.
       bindE (add64 ox quarter) (\<lambda>rx.
       bindE (add64 oy quarter) (\<lambda>ry.
       bindE (flatten (nat root_level) result rx ry [] P) (\<lambda>cells.
         Inr (cells, P))))))))))))))))))"

section \<open>HashLifeEngine: clustering and tick\<close>

text \<open>
  The hash maps \<^verbatim>\<open>chunks\<close>, \<^verbatim>\<open>parent\<close> and \<^verbatim>\<open>clusters\<close> are association lists in
  insertion order.  \<^verbatim>\<open>parent[k]\<close> inserts a default key for a missing \<open>k\<close>.  The
  recursive lambda \<^verbatim>\<open>find\<close> takes fuel: a chain of parents is no longer than the
  number of chunks.
\<close>
fun foldE :: "('a \<Rightarrow> 'b \<Rightarrow> error + 'b) \<Rightarrow> 'a list \<Rightarrow> 'b \<Rightarrow> error + 'b" where
  "foldE f [] s = Inr s"
| "foldE f (v # vs) s = bindE (f v s) (foldE f vs)"

definition chunk_coord :: "int64 \<Rightarrow> error + int64" where
  "chunk_coord v =
    (if 0 \<le>s v then Inr (div64 v 64)
     else bindE (sub64 v 64) (\<lambda>t. bindE (add64 t 1) (\<lambda>u. Inr (div64 u 64))))"

definition add_to_chunk ::
  "Cell \<Rightarrow> (ChunkKey \<times> Cell list) list \<Rightarrow> error + (ChunkKey \<times> Cell list) list" where
  "add_to_chunk cell chunks =
    bindE (chunk_coord (cell_x cell)) (\<lambda>cx.
    bindE (chunk_coord (cell_y cell)) (\<lambda>cy.
      let k = \<lparr>key_cx = cx, key_cy = cy\<rparr> in
      Inr (AList.update k ((case map_of chunks k of None \<Rightarrow> [] | Some v \<Rightarrow> v) @ [cell]) chunks)))"

definition parent_at ::
  "(ChunkKey \<times> ChunkKey) list \<Rightarrow> ChunkKey \<Rightarrow> ChunkKey \<times> (ChunkKey \<times> ChunkKey) list" where
  "parent_at parent k =
    (case map_of parent k of
       Some v \<Rightarrow> (v, parent)
     | None \<Rightarrow> (\<lparr>key_cx = 0, key_cy = 0\<rparr>, parent @ [(k, \<lparr>key_cx = 0, key_cy = 0\<rparr>)]))"

fun find ::
  "nat \<Rightarrow> ChunkKey \<Rightarrow> (ChunkKey \<times> ChunkKey) list
     \<Rightarrow> error + (ChunkKey \<times> (ChunkKey \<times> ChunkKey) list)" where
  "find 0 k parent = Inl OutOfFuel"
| "find (Suc fuel) k parent =
    (let (pk, parent) = parent_at parent k in
     if pk \<noteq> k then
       bindE (find fuel pk parent) (\<lambda>(r, parent). Inr (r, AList.update k r parent))
     else Inr (pk, parent))"

definition unite ::
  "nat \<Rightarrow> ChunkKey \<Rightarrow> ChunkKey \<Rightarrow> (ChunkKey \<times> ChunkKey) list
     \<Rightarrow> error + (ChunkKey \<times> ChunkKey) list" where
  "unite fuel a b parent =
    bindE (find fuel a parent) (\<lambda>(a, parent).
    bindE (find fuel b parent) (\<lambda>(b, parent).
      Inr (if a \<noteq> b then AList.update a b parent else parent)))"

definition merge_neighbor ::
  "nat \<Rightarrow> (ChunkKey \<times> Cell list) list \<Rightarrow> ChunkKey \<Rightarrow> int64 \<Rightarrow> int64
     \<Rightarrow> (ChunkKey \<times> ChunkKey) list \<Rightarrow> error + (ChunkKey \<times> ChunkKey) list" where
  "merge_neighbor fuel chunks key dx dy parent =
    (if dx = 0 \<and> dy = 0 then Inr parent
     else
       bindE (add64 (key_cx key) dx) (\<lambda>ncx.
       bindE (add64 (key_cy key) dy) (\<lambda>ncy.
         let neighbor = \<lparr>key_cx = ncx, key_cy = ncy\<rparr> in
         if map_of chunks neighbor \<noteq> None then unite fuel key neighbor parent
         else Inr parent)))"

definition merge_chunks ::
  "nat \<Rightarrow> (ChunkKey \<times> Cell list) list \<Rightarrow> (ChunkKey \<times> ChunkKey) list
     \<Rightarrow> error + (ChunkKey \<times> ChunkKey) list" where
  "merge_chunks fuel chunks parent =
    foldE (\<lambda>(key, _).
      foldE (\<lambda>dx. foldE (\<lambda>dy. merge_neighbor fuel chunks key dx dy) [-1, 0, 1]) [-1, 0, 1])
      chunks parent"

definition collect_cluster ::
  "nat \<Rightarrow> ChunkKey \<times> Cell list
     \<Rightarrow> (ChunkKey \<times> ChunkKey) list \<times> (ChunkKey \<times> CellSet) list
     \<Rightarrow> error + ((ChunkKey \<times> ChunkKey) list \<times> (ChunkKey \<times> CellSet) list)" where
  "collect_cluster fuel chunk s =
    bindE (find fuel (fst chunk) (fst s)) (\<lambda>(root, parent).
      Inr (parent,
           fold (\<lambda>cell clusters.
                  AList.update root
                    (List.insert cell (case map_of clusters root of None \<Rightarrow> [] | Some v \<Rightarrow> v))
                    clusters)
             (snd chunk) (snd s)))"

definition step_clusters ::
  "ChunkKey \<times> CellSet \<Rightarrow> CellSet \<times> NodePool \<Rightarrow> error + (CellSet \<times> NodePool)" where
  "step_clusters cluster s =
    bindE (step_cluster (snd cluster) (snd s)) (\<lambda>(cluster_cells, P).
      Inr (fold List.insert cluster_cells (fst s), P))"

definition HashLifeEngine_tick :: "CellSet \<Rightarrow> error + CellSet" where
  "HashLifeEngine_tick cells =
    (let pool = NodePool_clear in
     if cells = [] then Inr cells
     else
       bindE (foldE add_to_chunk cells []) (\<lambda>chunks.
       let parent = fold (\<lambda>(key, _) parent. AList.update key key parent) chunks [];
           fuel = Suc (length chunks)
       in
       bindE (merge_chunks fuel chunks parent) (\<lambda>parent.
       bindE (foldE (collect_cluster fuel) chunks (parent, [])) (\<lambda>(parent, clusters).
       bindE (foldE step_clusters clusters ([], pool)) (\<lambda>(cells, pool).
         Inr cells)))))"

section \<open>The three engines on a blinker and at the edge of the coordinate range\<close>
definition blinker_row :: CellSet where
  "blinker_row = [\<lparr>cell_x = 0, cell_y = 0\<rparr>, \<lparr>cell_x = 1, cell_y = 0\<rparr>, \<lparr>cell_x = 2, cell_y = 0\<rparr>]"

definition blinker_column :: CellSet where
  "blinker_column = [\<lparr>cell_x = 1, cell_y = - 1\<rparr>, \<lparr>cell_x = 1, cell_y = 0\<rparr>, \<lparr>cell_x = 1, cell_y = 1\<rparr>]"

definition edge_blinker :: CellSet where
  "edge_blinker = [\<lparr>cell_x = max_val - 1, cell_y = - 1\<rparr>, \<lparr>cell_x = max_val - 1, cell_y = 0\<rparr>,
     \<lparr>cell_x = max_val - 1, cell_y = 1\<rparr>]"

text \<open>
  The hashtable and the sorted engine return the same set after any number of ticks,
  whatever the order in which the two alive-sets are iterated.
\<close>

lemma engines_agree_hashtable_sorted:
  assumes "distinct a" and "distinct b" and "set a = set b"
  shows "set ((HashtableEngine_tick ^^ n) a) = set ((SortedVectorEngine_tick ^^ n) b)
    \<and> distinct ((HashtableEngine_tick ^^ n) a) \<and> distinct ((SortedVectorEngine_tick ^^ n) b)"
proof (induction n)
  case 0
  show ?case using assms by simp
next
  case (Suc n)
  then show ?case
    by (simp add: set_HashtableEngine_tick set_SortedVectorEngine_tick
        distinct_HashtableEngine_tick distinct_SortedVectorEngine_tick)
qed

text \<open>
  The chunk coordinate of a negative \<open>v\<close> is \<^verbatim>\<open>(v - CHUNK_SIZE + 1) / CHUNK_SIZE\<close>: the
  subtraction leaves the range for the 64 smallest values of \<open>v\<close>.
\<close>

lemma chunk_coord_overflow:
  assumes "sint v < - (2 ^ 63) + 64"
  shows "chunk_coord v = Inl SignedOverflow"
proof -
  have "sint (64 :: int64) = 64" by simp
  then show ?thesis
    using assms by (simp add: chunk_coord_def sub64_def in_int64_def word_sle_eq)
qed

text \<open>
  Claim C8.  From the blinker \<open>{(0,0), (1,0), (2,0)}\<close> one tick gives exactly
  \<open>{(1,-1), (1,0), (1,1)}\<close> and a second tick gives the blinker back, in each of the
  three engines (the HashLife engine returns, without failure, these very lists).
\<close>

theorem blinker_period_two:
  "set (HashtableEngine_tick blinker_row) = set blinker_column
   \<and> set (HashtableEngine_tick (HashtableEngine_tick blinker_row)) = set blinker_row
   \<and> set (SortedVectorEngine_tick blinker_row) = set blinker_column
   \<and> set (SortedVectorEngine_tick (SortedVectorEngine_tick blinker_row)) = set blinker_row
   \<and> HashLifeEngine_tick blinker_row = Inr blinker_column
   \<and> HashLifeEngine_tick blinker_column = Inr blinker_row"
proof -
  have "set (HashtableEngine_tick blinker_row) = set blinker_column" by code_simp
  moreover have "set (HashtableEngine_tick (HashtableEngine_tick blinker_row)) = set blinker_row"
    by code_simp
  moreover have "set (SortedVectorEngine_tick blinker_row) = set blinker_column" by code_simp
  moreover have "set (SortedVectorEngine_tick (SortedVectorEngine_tick blinker_row)) = set blinker_row"
    by code_simp
  moreover have "HashLifeEngine_tick blinker_row = Inr blinker_column" by code_simp
  moreover have "HashLifeEngine_tick blinker_column = Inr blinker_row" by code_simp
  ultimately show ?thesis by blast
qed

text \<open>
  Claim C2 (the three engines agree on every alive-set) fails next to the largest
  coordinate: for the vertical blinker in column \<open>max_val - 1\<close> the hashtable and the
  sorted engine return the horizontal blinker \<open>{(max_val - 2, 0), (max_val - 1, 0),
  (max_val, 0)}\<close>, while the HashLife engine adds the size 4 of its square to the origin
  \<open>max_val - 2\<close> in \<^verbatim>\<open>has_cell_in\<close>, a signed overflow.
\<close>

theorem engines_diverge_at_edge:
  "set (HashtableEngine_tick edge_blinker)
     = {\<lparr>cell_x = max_val - 2, cell_y = 0\<rparr>, \<lparr>cell_x = max_val - 1, cell_y = 0\<rparr>,
        \<lparr>cell_x = max_val, cell_y = 0\<rparr>}
   \<and> set (SortedVectorEngine_tick edge_blinker) = set (HashtableEngine_tick edge_blinker)
   \<and> HashLifeEngine_tick edge_blinker = Inl SignedOverflow"
proof -
  have "set (HashtableEngine_tick edge_blinker)
     = {\<lparr>cell_x = max_val - 2, cell_y = 0\<rparr>, \<lparr>cell_x = max_val - 1, cell_y = 0\<rparr>,
        \<lparr>cell_x = max_val, cell_y = 0\<rparr>}" by code_simp
  moreover have "set (SortedVectorEngine_tick edge_blinker) = set (HashtableEngine_tick edge_blinker)"
    by code_simp
  moreover have "HashLifeEngine_tick edge_blinker = Inl SignedOverflow" by code_simp
  ultimately show ?thesis by blast
qed

text \<open>
  Claim C5 (no engine performs undefined signed arithmetic) fails for the HashLife engine:
  for the single cell \<open>(min_val, 0)\<close> the chunk coordinate
  \<^verbatim>\<open>(cell.x - CHUNK_SIZE + 1) / CHUNK_SIZE\<close> overflows in \<^verbatim>\<open>cell.x - CHUNK_SIZE\<close>.
\<close>

theorem HashLifeEngine_tick_overflow:
  "chunk_coord min_val = Inl SignedOverflow
   \<and> HashLifeEngine_tick [\<lparr>cell_x = min_val, cell_y = 0\<rparr>] = Inl SignedOverflow"
proof -
  have "chunk_coord min_val = Inl SignedOverflow" by code_simp
  moreover have "HashLifeEngine_tick [\<lparr>cell_x = min_val, cell_y = 0\<rparr>] = Inl SignedOverflow"
    by code_simp
  ultimately show ?thesis by blast
qed

section \<open>Quadtrees as squares of cells\<close>

text \<open>
  What a node stands for: a tree of height \<open>k\<close> with all leaves at depth \<open>k\<close> is a
  \<open>2\<^sup>k \<times> 2\<^sup>k\<close> square of cells.  In \<open>QNode nw ne sw se\<close> the first and third
  quadrants are the western half (small \<open>x\<close>) and the first and second the northern half
  (small \<open>y\<close>), as \<^verbatim>\<open>build_recursive\<close> and \<^verbatim>\<open>flatten\<close> lay them out.  \<open>alive_at t x y\<close>
  reads the cell at offset \<open>(x, y)\<close> from the north-west corner, and \<open>life_next g x y\<close>
  is the Life rule for the cell \<open>(x, y)\<close> of the grid \<open>g\<close>.
\<close>
datatype qtree = QLeaf bool | QNode qtree qtree qtree qtree

fun height :: "qtree \<Rightarrow> nat" where
  "height (QLeaf b) = 0"
| "height (QNode a b c d) = Suc (height a)"

fun full :: "nat \<Rightarrow> qtree \<Rightarrow> bool" where
  "full 0 (QLeaf b) = True"
| "full (Suc k) (QNode a b c d) = (full k a \<and> full k b \<and> full k c \<and> full k d)"
| "full _ _ = False"

fun alive_at :: "qtree \<Rightarrow> int \<Rightarrow> int \<Rightarrow> bool" where
  "alive_at (QLeaf b) x y = b"
| "alive_at (QNode a b c d) x y =
    (if x < 2 ^ height a then
       (if y < 2 ^ height a then alive_at a x y else alive_at c x (y - 2 ^ height a))
     else
       (if y < 2 ^ height a then alive_at b (x - 2 ^ height a) y
        else alive_at d (x - 2 ^ height a) (y - 2 ^ height a)))"

fun qpop :: "qtree \<Rightarrow> int" where
  "qpop (QLeaf b) = (if b then 1 else 0)"
| "qpop (QNode a b c d) = qpop a + qpop b + qpop c + qpop d"

definition neighbor_offsets :: "(int \<times> int) list" where
  "neighbor_offsets = [(-1, -1), (0, -1), (1, -1), (-1, 0), (1, 0), (-1, 1), (0, 1), (1, 1)]"

definition life_next :: "(int \<Rightarrow> int \<Rightarrow> bool) \<Rightarrow> int \<Rightarrow> int \<Rightarrow> bool" where
  "life_next g x y =
    (let n = length (filter (\<lambda>(dx, dy). g (x + dx) (y + dy)) neighbor_offsets)
     in n = 3 \<or> (n = 2 \<and> g x y))"

fun qnw :: "qtree \<Rightarrow> qtree" where "qnw (QNode a b c d) = a" | "qnw t = t"
fun qne :: "qtree \<Rightarrow> qtree" where "qne (QNode a b c d) = b" | "qne t = t"
fun qsw :: "qtree \<Rightarrow> qtree" where "qsw (QNode a b c d) = c" | "qsw t = t"
fun qse :: "qtree \<Rightarrow> qtree" where "qse (QNode a b c d) = d" | "qse t = t"

definition qcenter :: "qtree \<Rightarrow> qtree" where
  "qcenter t = QNode (qse (qnw t)) (qsw (qne t)) (qne (qsw t)) (qnw (qse t))"

lemma full_height: "full k t \<Longrightarrow> height t = k"
  by (induction k t rule: full.induct) auto

lemma full_Suc_cases:
  assumes "full (Suc k) t"
  obtains a b c d where "t = QNode a b c d" "full k a" "full k b" "full k c" "full k d"
  using assms by (cases t) auto

lemma qpop_nonneg: "0 \<le> qpop t"
  by (induction t) auto

lemma qpop_zero_dead: "qpop t = 0 \<Longrightarrow> \<not> alive_at t x y"
proof (induction t arbitrary: x y)
  case (QLeaf b)
  then show ?case by (simp split: if_splits)
next
  case (QNode a b c d)
  have "qpop a = 0" "qpop b = 0" "qpop c = 0" "qpop d = 0"
    using QNode.prems qpop_nonneg[of a] qpop_nonneg[of b] qpop_nonneg[of c] qpop_nonneg[of d]
    by auto
  then show ?case using QNode.IH by simp
qed

lemma alive_at_QNode:
  assumes "full k a"
  shows "alive_at (QNode a b c d) x y =
    (if x < 2 ^ k then (if y < 2 ^ k then alive_at a x y else alive_at c x (y - 2 ^ k))
     else (if y < 2 ^ k then alive_at b (x - 2 ^ k) y else alive_at d (x - 2 ^ k) (y - 2 ^ k)))"
  using full_height[OF assms] by simp

declare alive_at.simps(2) [simp del]

lemma life_next_cong:
  assumes "\<And>dx dy. dx \<in> {-1, 0, 1} \<Longrightarrow> dy \<in> {-1, 0, 1} \<Longrightarrow> g (x + dx) (y + dy) = g' (x' + dx) (y' + dy)"
  shows "life_next g x y = life_next g' x' y'"
proof -
  have "g x y = g' x' y'" using assms[of 0 0] by simp
  moreover have "(dx, dy) \<in> set neighbor_offsets \<Longrightarrow> g (x + dx) (y + dy) = g' (x' + dx) (y' + dy)"
    for dx dy
    by (rule assms) (auto simp: neighbor_offsets_def)
  then have "filter (\<lambda>(dx, dy). g (x + dx) (y + dy)) neighbor_offsets
      = filter (\<lambda>(dx, dy). g' (x' + dx) (y' + dy)) neighbor_offsets"
    by (intro filter_cong refl) auto
  ultimately show ?thesis by (simp add: life_next_def)
qed

text \<open>
  The five squares \<^verbatim>\<open>c01\<close>, \<^verbatim>\<open>c10\<close>, \<^verbatim>\<open>c11\<close>, \<^verbatim>\<open>c12\<close>, \<^verbatim>\<open>c21\<close> that \<^verbatim>\<open>slow_step\<close>
  makes of grandchildren, and \<open>region k t ox oy r\<close>: the tree \<open>r\<close> of height \<open>k\<close> is the
  part of \<open>t\<close> whose north-west corner is at \<open>(ox, oy)\<close>.
\<close>

definition qc01 :: "qtree \<Rightarrow> qtree" where
  "qc01 t = QNode (qne (qnw t)) (qnw (qne t)) (qse (qnw t)) (qsw (qne t))"
definition qc10 :: "qtree \<Rightarrow> qtree" where
  "qc10 t = QNode (qsw (qnw t)) (qse (qnw t)) (qnw (qsw t)) (qne (qsw t))"
definition qc11 :: "qtree \<Rightarrow> qtree" where
  "qc11 t = QNode (qse (qnw t)) (qsw (qne t)) (qne (qsw t)) (qnw (qse t))"
definition qc12 :: "qtree \<Rightarrow> qtree" where
  "qc12 t = QNode (qsw (qne t)) (qse (qne t)) (qnw (qse t)) (qne (qse t))"
definition qc21 :: "qtree \<Rightarrow> qtree" where
  "qc21 t = QNode (qne (qsw t)) (qnw (qse t)) (qse (qsw t)) (qsw (qse t))"

definition region :: "nat \<Rightarrow> qtree \<Rightarrow> int \<Rightarrow> int \<Rightarrow> qtree \<Rightarrow> bool" where
  "region k t ox oy r \<longleftrightarrow>
     full k r \<and>
     (\<forall>u v. 0 \<le> u \<and> u < 2 ^ k \<and> 0 \<le> v \<and> v < 2 ^ k \<longrightarrow>
        alive_at r u v = alive_at t (u + ox) (v + oy))"

lemma regionI:
  "full k r \<Longrightarrow>
   (\<And>u v. 0 \<le> u \<Longrightarrow> u < 2 ^ k \<Longrightarrow> 0 \<le> v \<Longrightarrow> v < 2 ^ k \<Longrightarrow>
       alive_at r u v = alive_at t (u + ox) (v + oy)) \<Longrightarrow> region k t ox oy r"
  by (simp add: region_def)

lemma regionD:
  "region k t ox oy r \<Longrightarrow> 0 \<le> u \<Longrightarrow> u < 2 ^ k \<Longrightarrow> 0 \<le> v \<Longrightarrow> v < 2 ^ k \<Longrightarrow>
     alive_at r u v = alive_at t (u + ox) (v + oy)"
  by (simp add: region_def)

lemma region_full: "region k t ox oy r \<Longrightarrow> full k r"
  by (simp add: region_def)

lemma region_trans:
  assumes "region k s ox oy r" and "region j t px py s"
    and "0 \<le> ox" "ox + 2 ^ k \<le> 2 ^ j" "0 \<le> oy" "oy + 2 ^ k \<le> 2 ^ j"
  shows "region k t (ox + px) (oy + py) r"
proof (rule regionI)
  show "full k r" using assms(1) by (rule region_full)
next
  fix u v :: int
  assume uv: "0 \<le> u" "u < 2 ^ k" "0 \<le> v" "v < 2 ^ k"
  have "alive_at r u v = alive_at s (u + ox) (v + oy)"
    using assms(1) uv by (rule regionD)
  also have "\<dots> = alive_at t (u + ox + px) (v + oy + py)"
    using assms(2) by (rule regionD) (use uv assms(3-6) in auto)
  finally show "alive_at r u v = alive_at t (u + (ox + px)) (v + (oy + py))"
    by (simp add: add.assoc)
qed

lemma region_quad:
  assumes "region k t ox oy a" and "region k t (ox + 2 ^ k) oy b"
    and "region k t ox (oy + 2 ^ k) c" and "region k t (ox + 2 ^ k) (oy + 2 ^ k) d"
  shows "region (Suc k) t ox oy (QNode a b c d)"
proof (rule regionI)
  show "full (Suc k) (QNode a b c d)"
    using assms by (simp add: region_full)
next
  fix u v :: int
  assume uv: "0 \<le> u" "u < 2 ^ Suc k" "0 \<le> v" "v < 2 ^ Suc k"
  have fa: "full k a" using assms(1) by (rule region_full)
  consider "u < 2 ^ k" "v < 2 ^ k" | "u < 2 ^ k" "2 ^ k \<le> v" | "2 ^ k \<le> u" "v < 2 ^ k"
    | "2 ^ k \<le> u" "2 ^ k \<le> v" by linarith
  then show "alive_at (QNode a b c d) u v = alive_at t (u + ox) (v + oy)"
  proof cases
    case 1
    then show ?thesis
      using regionD[OF assms(1), of u v] uv by (simp add: alive_at_QNode[OF fa])
  next
    case 2
    then show ?thesis
      using regionD[OF assms(3), of u "v - 2 ^ k"] uv by (simp add: alive_at_QNode[OF fa])
  next
    case 3
    then show ?thesis
      using regionD[OF assms(2), of "u - 2 ^ k" v] uv by (simp add: alive_at_QNode[OF fa])
  next
    case 4
    then show ?thesis
      using regionD[OF assms(4), of "u - 2 ^ k" "v - 2 ^ k"] uv
      by (simp add: alive_at_QNode[OF fa])
  qed
qed

lemma region_self: "full k t \<Longrightarrow> region k t 0 0 t"
  by (simp add: region_def)

lemma region_children:
  assumes "full (Suc k) t"
  shows "region k t 0 0 (qnw t)" "region k t (2 ^ k) 0 (qne t)"
    "region k t 0 (2 ^ k) (qsw t)" "region k t (2 ^ k) (2 ^ k) (qse t)"
proof -
  obtain a b c d where t: "t = QNode a b c d" and f: "full k a" "full k b" "full k c" "full k d"
    using assms by (rule full_Suc_cases)
  show "region k t 0 0 (qnw t)" "region k t (2 ^ k) 0 (qne t)"
    "region k t 0 (2 ^ k) (qsw t)" "region k t (2 ^ k) (2 ^ k) (qse t)"
    unfolding t using f by (auto simp: region_def alive_at_QNode[OF f(1)])
qed

lemma region_cong:
  "region k t ox oy r \<Longrightarrow> ox = ox' \<Longrightarrow> oy = oy' \<Longrightarrow> region k t ox' oy' r"
  by simp

lemma full_children:
  assumes "full (Suc k) t"
  shows "full k (qnw t)" "full k (qne t)" "full k (qsw t)" "full k (qse t)"
  using region_children[OF assms] by (simp_all add: region_full)

lemma region_grandchild:
  assumes "full (Suc (Suc j)) t"
    and "region (Suc j) t px py s"
    and "region j s ox oy r"
    and "ox = 0 \<or> ox = 2 ^ j" "oy = 0 \<or> oy = 2 ^ j"
    and "x = ox + px" "y = oy + py"
  shows "region j t x y r"
  unfolding assms(6,7)
  by (rule region_trans[OF assms(3) assms(2)]) (use assms(4,5) in auto)

lemma region_grandchildren:
  assumes "full (Suc (Suc j)) t"
  shows "region j t 0 0 (qnw (qnw t))"
    and "region j t (2 ^ j) 0 (qne (qnw t))"
    and "region j t (2 * 2 ^ j) 0 (qnw (qne t))"
    and "region j t (3 * 2 ^ j) 0 (qne (qne t))"
    and "region j t 0 (2 ^ j) (qsw (qnw t))"
    and "region j t (2 ^ j) (2 ^ j) (qse (qnw t))"
    and "region j t (2 * 2 ^ j) (2 ^ j) (qsw (qne t))"
    and "region j t (3 * 2 ^ j) (2 ^ j) (qse (qne t))"
    and "region j t 0 (2 * 2 ^ j) (qnw (qsw t))"
    and "region j t (2 ^ j) (2 * 2 ^ j) (qne (qsw t))"
    and "region j t (2 * 2 ^ j) (2 * 2 ^ j) (qnw (qse t))"
    and "region j t (3 * 2 ^ j) (2 * 2 ^ j) (qne (qse t))"
    and "region j t 0 (3 * 2 ^ j) (qsw (qsw t))"
    and "region j t (2 ^ j) (3 * 2 ^ j) (qse (qsw t))"
    and "region j t (2 * 2 ^ j) (3 * 2 ^ j) (qsw (qse t))"
    and "region j t (3 * 2 ^ j) (3 * 2 ^ j) (qse (qse t))"
proof -
  note c = region_children[OF assms]
  note f = full_children[OF assms]
  note g = region_grandchild[OF assms]
  show "region j t 0 0 (qnw (qnw t))"
    by (rule g[OF c(1) region_children(1)[OF f(1)]]) simp_all
  show "region j t (2 ^ j) 0 (qne (qnw t))"
    by (rule g[OF c(1) region_children(2)[OF f(1)]]) simp_all
  show "region j t 0 (2 ^ j) (qsw (qnw t))"
    by (rule g[OF c(1) region_children(3)[OF f(1)]]) simp_all
  show "region j t (2 ^ j) (2 ^ j) (qse (qnw t))"
    by (rule g[OF c(1) region_children(4)[OF f(1)]]) simp_all
  show "region j t (2 * 2 ^ j) 0 (qnw (qne t))"
    by (rule g[OF c(2) region_children(1)[OF f(2)]]) simp_all
  show "region j t (3 * 2 ^ j) 0 (qne (qne t))"
    by (rule g[OF c(2) region_children(2)[OF f(2)]]) simp_all
  show "region j t (2 * 2 ^ j) (2 ^ j) (qsw (qne t))"
    by (rule g[OF c(2) region_children(3)[OF f(2)]]) simp_all
  show "region j t (3 * 2 ^ j) (2 ^ j) (qse (qne t))"
    by (rule g[OF c(2) region_children(4)[OF f(2)]]) simp_all
  show "region j t 0 (2 * 2 ^ j) (qnw (qsw t))"
    by (rule g[OF c(3) region_children(1)[OF f(3)]]) simp_all
  show "region j t (2 ^ j) (2 * 2 ^ j) (qne (qsw t))"
    by (rule g[OF c(3) region_children(2)[OF f(3)]]) simp_all
  show "region j t 0 (3 * 2 ^ j) (qsw (qsw t))"
    by (rule g[OF c(3) region_children(3)[OF f(3)]]) simp_all
  show "region j t (2 ^ j) (3 * 2 ^ j) (qse (qsw t))"
    by (rule g[OF c(3) region_children(4)[OF f(3)]]) simp_all
  show "region j t (2 * 2 ^ j) (2 * 2 ^ j) (qnw (qse t))"
    by (rule g[OF c(4) region_children(1)[OF f(4)]]) simp_all
  show "region j t (3 * 2 ^ j) (2 * 2 ^ j) (qne (qse t))"
    by (rule g[OF c(4) region_children(2)[OF f(4)]]) simp_all
  show "region j t (2 * 2 ^ j) (3 * 2 ^ j) (qsw (qse t))"
    by (rule g[OF c(4) region_children(3)[OF f(4)]]) simp_all
  show "region j t (3 * 2 ^ j) (3 * 2 ^ j) (qse (qse t))"
    by (rule g[OF c(4) region_children(4)[OF f(4)]]) simp_all
qed

lemma region_quad':
  assumes "region k t ox oy a" and "region k t bx oy b"
    and "region k t ox cy c" and "region k t bx cy d"
    and "bx = ox + 2 ^ k" "cy = oy + 2 ^ k"
  shows "region (Suc k) t ox oy (QNode a b c d)"
  using assms region_quad by simp

lemma region_inner:
  assumes "full (Suc (Suc j)) t"
  shows "region (Suc j) t (2 ^ j) 0 (qc01 t)"
    and "region (Suc j) t 0 (2 ^ j) (qc10 t)"
    and "region (Suc j) t (2 ^ j) (2 ^ j) (qc11 t)"
    and "region (Suc j) t (2 * 2 ^ j) (2 ^ j) (qc12 t)"
    and "region (Suc j) t (2 ^ j) (2 * 2 ^ j) (qc21 t)"
    and "region (Suc j) t (2 ^ j) (2 ^ j) (qcenter t)"
proof -
  note g = region_grandchildren[OF assms]
  show "region (Suc j) t (2 ^ j) 0 (qc01 t)"
    unfolding qc01_def by (rule region_quad'[OF g(2) g(3) g(6) g(7)]) simp_all
  show "region (Suc j) t 0 (2 ^ j) (qc10 t)"
    unfolding qc10_def by (rule region_quad'[OF g(5) g(6) g(9) g(10)]) simp_all
  show "region (Suc j) t (2 ^ j) (2 ^ j) (qc11 t)"
    unfolding qc11_def by (rule region_quad'[OF g(6) g(7) g(10) g(11)]) simp_all
  show "region (Suc j) t (2 * 2 ^ j) (2 ^ j) (qc12 t)"
    unfolding qc12_def by (rule region_quad'[OF g(7) g(8) g(11) g(12)]) simp_all
  show "region (Suc j) t (2 ^ j) (2 * 2 ^ j) (qc21 t)"
    unfolding qc21_def by (rule region_quad'[OF g(10) g(11) g(14) g(15)]) simp_all
  show "region (Suc j) t (2 ^ j) (2 ^ j) (qcenter t)"
    unfolding qcenter_def by (rule region_quad'[OF g(6) g(7) g(10) g(11)]) simp_all
qed

text \<open>
  The four squares that \<^verbatim>\<open>slow_step\<close> steps recursively, each made of four centers, and
  \<open>advanced k t t'\<close>: the tree \<open>t'\<close> of height \<open>k + 1\<close> is the center of \<open>t\<close> (of height
  \<open>k + 2\<close>) one generation later.
\<close>

definition quadrant00 :: "qtree \<Rightarrow> qtree" where
  "quadrant00 t = QNode (qcenter (qnw t)) (qcenter (qc01 t)) (qcenter (qc10 t)) (qcenter (qc11 t))"
definition quadrant01 :: "qtree \<Rightarrow> qtree" where
  "quadrant01 t = QNode (qcenter (qc01 t)) (qcenter (qne t)) (qcenter (qc11 t)) (qcenter (qc12 t))"
definition quadrant10 :: "qtree \<Rightarrow> qtree" where
  "quadrant10 t = QNode (qcenter (qc10 t)) (qcenter (qc11 t)) (qcenter (qsw t)) (qcenter (qc21 t))"
definition quadrant11 :: "qtree \<Rightarrow> qtree" where
  "quadrant11 t = QNode (qcenter (qc11 t)) (qcenter (qc12 t)) (qcenter (qc21 t)) (qcenter (qse t))"

definition advanced :: "nat \<Rightarrow> qtree \<Rightarrow> qtree \<Rightarrow> bool" where
  "advanced k t t' \<longleftrightarrow>
     full (Suc (Suc k)) t \<and> full (Suc k) t' \<and>
     (\<forall>x y. 0 \<le> x \<and> x < 2 ^ Suc k \<and> 0 \<le> y \<and> y < 2 ^ Suc k \<longrightarrow>
        alive_at t' x y = life_next (alive_at t) (x + 2 ^ k) (y + 2 ^ k))"

lemma region_center_of:
  assumes "region (Suc (Suc m)) t px py s" and "full (Suc (Suc (Suc m))) t"
    and "px = 0 \<or> px = 2 * 2 ^ m \<or> px = 4 * 2 ^ m" "py = 0 \<or> py = 2 * 2 ^ m \<or> py = 4 * 2 ^ m"
    and "x = 2 ^ m + px" "y = 2 ^ m + py"
  shows "region (Suc m) t x y (qcenter s)"
  unfolding assms(5,6)
  by (rule region_trans[OF region_inner(6)[OF region_full[OF assms(1)]] assms(1)])
     (use assms(3,4) in auto)

lemma region_quadrants:
  assumes "full (Suc (Suc (Suc m))) t"
  shows "region (Suc (Suc m)) t (2 ^ m) (2 ^ m) (quadrant00 t)"
    and "region (Suc (Suc m)) t (3 * 2 ^ m) (2 ^ m) (quadrant01 t)"
    and "region (Suc (Suc m)) t (2 ^ m) (3 * 2 ^ m) (quadrant10 t)"
    and "region (Suc (Suc m)) t (3 * 2 ^ m) (3 * 2 ^ m) (quadrant11 t)"
proof -
  note c = region_children[OF assms]
  note i = region_inner[OF assms]
  note ctr = region_center_of[OF _ assms]
  have r00: "region (Suc m) t (2 ^ m) (2 ^ m) (qcenter (qnw t))"
    by (rule ctr[OF c(1)]) simp_all
  have r01: "region (Suc m) t (3 * 2 ^ m) (2 ^ m) (qcenter (qc01 t))"
    by (rule ctr[OF i(1)]) simp_all
  have r02: "region (Suc m) t (5 * 2 ^ m) (2 ^ m) (qcenter (qne t))"
    by (rule ctr[OF c(2)]) simp_all
  have r10: "region (Suc m) t (2 ^ m) (3 * 2 ^ m) (qcenter (qc10 t))"
    by (rule ctr[OF i(2)]) simp_all
  have r11: "region (Suc m) t (3 * 2 ^ m) (3 * 2 ^ m) (qcenter (qc11 t))"
    by (rule ctr[OF i(3)]) simp_all
  have r12: "region (Suc m) t (5 * 2 ^ m) (3 * 2 ^ m) (qcenter (qc12 t))"
    by (rule ctr[OF i(4)]) simp_all
  have r20: "region (Suc m) t (2 ^ m) (5 * 2 ^ m) (qcenter (qsw t))"
    by (rule ctr[OF c(3)]) simp_all
  have r21: "region (Suc m) t (3 * 2 ^ m) (5 * 2 ^ m) (qcenter (qc21 t))"
    by (rule ctr[OF i(5)]) simp_all
  have r22: "region (Suc m) t (5 * 2 ^ m) (5 * 2 ^ m) (qcenter (qse t))"
    by (rule ctr[OF c(4)]) simp_all
  show "region (Suc (Suc m)) t (2 ^ m) (2 ^ m) (quadrant00 t)"
    unfolding quadrant00_def by (rule region_quad'[OF r00 r01 r10 r11]) simp_all
  show "region (Suc (Suc m)) t (3 * 2 ^ m) (2 ^ m) (quadrant01 t)"
    unfolding quadrant01_def by (rule region_quad'[OF r01 r02 r11 r12]) simp_all
  show "region (Suc (Suc m)) t (2 ^ m) (3 * 2 ^ m) (quadrant10 t)"
    unfolding quadrant10_def by (rule region_quad'[OF r10 r11 r20 r21]) simp_all
  show "region (Suc (Suc m)) t (3 * 2 ^ m) (3 * 2 ^ m) (quadrant11 t)"
    unfolding quadrant11_def by (rule region_quad'[OF r11 r12 r21 r22]) simp_all
qed

text \<open>One quadrant of the result: the step of a sub-square is the step of the square there.\<close>

lemma advanced_region:
  assumes "advanced m s s'" and "region (Suc (Suc m)) t ox oy s"
    and "0 \<le> x" "x < 2 ^ Suc m" "0 \<le> y" "y < 2 ^ Suc m"
  shows "alive_at s' x y = life_next (alive_at t) (x + 2 ^ m + ox) (y + 2 ^ m + oy)"
proof -
  have "alive_at s' x y = life_next (alive_at s) (x + 2 ^ m) (y + 2 ^ m)"
    using assms(1,3-6) by (simp add: advanced_def)
  also have "\<dots> = life_next (alive_at t) (x + 2 ^ m + ox) (y + 2 ^ m + oy)"
  proof (rule life_next_cong)
    fix dx dy :: int
    assume d: "dx \<in> {- 1, 0, 1}" "dy \<in> {- 1, 0, 1}"
    have p: "(1 :: int) \<le> 2 ^ m" by simp
    have "alive_at s (x + 2 ^ m + dx) (y + 2 ^ m + dy)
        = alive_at t (x + 2 ^ m + dx + ox) (y + 2 ^ m + dy + oy)"
      by (rule regionD[OF assms(2)]) (use d p assms(3-6) in auto)
    then show "alive_at s (x + 2 ^ m + dx) (y + 2 ^ m + dy)
        = alive_at t (x + 2 ^ m + ox + dx) (y + 2 ^ m + oy + dy)"
      by (simp add: add.commute add.left_commute)
  qed
  finally show ?thesis .
qed

lemma advanced_assemble:
  assumes "full (Suc (Suc (Suc m))) t"
    and "advanced m (quadrant00 t) s00" "advanced m (quadrant01 t) s01"
    and "advanced m (quadrant10 t) s10" "advanced m (quadrant11 t) s11"
  shows "advanced (Suc m) t (QNode s00 s01 s10 s11)"
  unfolding advanced_def
proof (intro conjI allI impI)
  show "full (Suc (Suc (Suc m))) t" by (rule assms(1))
  have f: "full (Suc m) s00" "full (Suc m) s01" "full (Suc m) s10" "full (Suc m) s11"
    using assms(2-5) by (simp_all add: advanced_def)
  then show "full (Suc (Suc m)) (QNode s00 s01 s10 s11)" by simp
  fix x y :: int
  assume xy: "0 \<le> x \<and> x < 2 ^ Suc (Suc m) \<and> 0 \<le> y \<and> y < 2 ^ Suc (Suc m)"
  note q = region_quadrants[OF assms(1)]
  consider "x < 2 ^ Suc m" "y < 2 ^ Suc m" | "x < 2 ^ Suc m" "2 ^ Suc m \<le> y"
    | "2 ^ Suc m \<le> x" "y < 2 ^ Suc m" | "2 ^ Suc m \<le> x" "2 ^ Suc m \<le> y" by linarith
  then show "alive_at (QNode s00 s01 s10 s11) x y
      = life_next (alive_at t) (x + 2 ^ Suc m) (y + 2 ^ Suc m)"
  proof cases
    case 1
    then show ?thesis
      using advanced_region[OF assms(2) q(1), of x y] xy
      by (simp add: alive_at_QNode[OF f(1)] algebra_simps)
  next
    case 2
    then show ?thesis
      using advanced_region[OF assms(4) q(3), of x "y - 2 ^ Suc m"] xy
      by (simp add: alive_at_QNode[OF f(1)] algebra_simps)
  next
    case 3
    then show ?thesis
      using advanced_region[OF assms(3) q(2), of "x - 2 ^ Suc m" y] xy
      by (simp add: alive_at_QNode[OF f(1)] algebra_simps)
  next
    case 4
    then show ?thesis
      using advanced_region[OF assms(5) q(4), of "x - 2 ^ Suc m" "y - 2 ^ Suc m"] xy
      by (simp add: alive_at_QNode[OF f(1)] algebra_simps)
  qed
qed

lemma advanced_dead:
  assumes "full (Suc (Suc k)) t" "qpop t = 0" "full (Suc k) t'" "qpop t' = 0"
  shows "advanced k t t'"
proof -
  have "\<not> life_next (alive_at t) x y" for x y
    using qpop_zero_dead[OF assms(2)] by (simp add: life_next_def neighbor_offsets_def)
  then show ?thesis
    using assms qpop_zero_dead[OF assms(4)] by (simp add: advanced_def)
qed

lemma int_length_filter:
  "int (length (filter P xs)) = sum_list (map (\<lambda>v. if P v then 1 else 0) xs)"
  by (induction xs) auto

lemma life_next_count:
  "life_next g x y \<longleftrightarrow>
    (let n = sum_list (map (\<lambda>(dx, dy). if g (x + dx) (y + dy) then 1 else (0 :: int)) neighbor_offsets)
     in n = 3 \<or> (n = 2 \<and> g x y))"
proof -
  define n where "n = length (filter (\<lambda>(dx, dy). g (x + dx) (y + dy)) neighbor_offsets)"
  define s where "s = sum_list (map (\<lambda>(dx, dy). if g (x + dx) (y + dy) then 1 else (0 :: int)) neighbor_offsets)"
  have "int n = s"
    unfolding n_def s_def int_length_filter by (rule arg_cong[where f = sum_list]) auto
  then have "n = 3 \<longleftrightarrow> s = 3" "n = 2 \<longleftrightarrow> s = 2" by linarith+
  then show ?thesis
    unfolding life_next_def Let_def n_def[symmetric] s_def[symmetric] by simp
qed

lemma life_rule_grid:
  fixes G :: "int \<Rightarrow> int \<Rightarrow> bool"
  assumes "(if G 0 0 then 1 else 0) = v00" "(if G 0 1 then 1 else 0) = v01"
    "(if G 0 2 then 1 else 0) = v02" "(if G 0 3 then 1 else 0) = v03"
    "(if G 1 0 then 1 else 0) = v10" "(if G 1 1 then 1 else 0) = v11"
    "(if G 1 2 then 1 else 0) = v12" "(if G 1 3 then 1 else 0) = v13"
    "(if G 2 0 then 1 else 0) = v20" "(if G 2 1 then 1 else 0) = v21"
    "(if G 2 2 then 1 else 0) = v22" "(if G 2 3 then 1 else 0) = v23"
    "(if G 3 0 then 1 else 0) = v30" "(if G 3 1 then 1 else 0) = v31"
    "(if G 3 2 then 1 else 0) = v32" "(if G 3 3 then 1 else 0) = (v33 :: int)"
  defines "g \<equiv> [[v00, v01, v02, v03], [v10, v11, v12, v13],
                [v20, v21, v22, v23], [v30, v31, v32, v33]]"
  shows "life_rule g 1 1 = life_next G 1 1" "life_rule g 2 1 = life_next G 2 1"
    "life_rule g 1 2 = life_next G 1 2" "life_rule g 2 2 = life_next G 2 2"
proof -
  have a: "v11 \<noteq> 0 \<longleftrightarrow> G 1 1" "v21 \<noteq> 0 \<longleftrightarrow> G 2 1" "v12 \<noteq> 0 \<longleftrightarrow> G 1 2" "v22 \<noteq> 0 \<longleftrightarrow> G 2 2"
    using assms(6,7,10,11) by (auto split: if_splits)
  have l: "life_rule g 1 1 \<longleftrightarrow>
      (v00 + v10 + v20 + v01 + v21 + v02 + v12 + v22 = 3 \<or>
       v00 + v10 + v20 + v01 + v21 + v02 + v12 + v22 = 2 \<and> v11 \<noteq> 0)"
    "life_rule g 2 1 \<longleftrightarrow>
      (v10 + v20 + v30 + v11 + v31 + v12 + v22 + v32 = 3 \<or>
       v10 + v20 + v30 + v11 + v31 + v12 + v22 + v32 = 2 \<and> v21 \<noteq> 0)"
    "life_rule g 1 2 \<longleftrightarrow>
      (v01 + v11 + v21 + v02 + v22 + v03 + v13 + v23 = 3 \<or>
       v01 + v11 + v21 + v02 + v22 + v03 + v13 + v23 = 2 \<and> v12 \<noteq> 0)"
    "life_rule g 2 2 \<longleftrightarrow>
      (v11 + v21 + v31 + v12 + v32 + v13 + v23 + v33 = 3 \<or>
       v11 + v21 + v31 + v12 + v32 + v13 + v23 + v33 = 2 \<and> v22 \<noteq> 0)"
    unfolding life_rule_def g_def by (simp_all add: Let_def)
  have r: "life_next G 1 1 \<longleftrightarrow>
      (v00 + v10 + v20 + v01 + v21 + v02 + v12 + v22 = 3 \<or>
       v00 + v10 + v20 + v01 + v21 + v02 + v12 + v22 = 2 \<and> G 1 1)"
    "life_next G 2 1 \<longleftrightarrow>
      (v10 + v20 + v30 + v11 + v31 + v12 + v22 + v32 = 3 \<or>
       v10 + v20 + v30 + v11 + v31 + v12 + v22 + v32 = 2 \<and> G 2 1)"
    "life_next G 1 2 \<longleftrightarrow>
      (v01 + v11 + v21 + v02 + v22 + v03 + v13 + v23 = 3 \<or>
       v01 + v11 + v21 + v02 + v22 + v03 + v13 + v23 = 2 \<and> G 1 2)"
    "life_next G 2 2 \<longleftrightarrow>
      (v11 + v21 + v31 + v12 + v32 + v13 + v23 + v33 = 3 \<or>
       v11 + v21 + v31 + v12 + v32 + v13 + v23 + v33 = 2 \<and> G 2 2)"
    unfolding life_next_count neighbor_offsets_def Let_def
    by (simp_all add: assms(1-16) add.assoc del: if_split cong: if_cong)
  show "life_rule g 1 1 = life_next G 1 1" "life_rule g 2 1 = life_next G 2 1"
    "life_rule g 1 2 = life_next G 1 2" "life_rule g 2 2 = life_next G 2 2"
    unfolding l r a by (rule refl)+
qed

section \<open>The pool as a store of quadtrees\<close>

text \<open>
  \<open>kids P i\<close> are the four children of node \<open>i\<close> when they were allocated before it,
  and \<open>tree_of P i\<close> is the tree the node stands for.  \<open>pool_ext P P'\<close> says that \<open>P'\<close>
  keeps every node of \<open>P\<close> (level, population and children) and every memoized result.
  \<open>pool_wf\<close> is the invariant of the canonical map: the two leaves come first, every
  other node has four children one level below it, the population that is the sum of
  theirs, and is the entry of its key in the map; every entry of the map is such a node.
\<close>
definition kids :: "NodePool \<Rightarrow> nat \<Rightarrow> (nat \<times> nat \<times> nat \<times> nat) option" where
  "kids P i =
    (if i < length (arena P) then
       (case (nw (arena P ! i), ne (arena P ! i), sw (arena P ! i), se (arena P ! i)) of
          (Some a, Some b, Some c, Some d) \<Rightarrow>
            if a < i \<and> b < i \<and> c < i \<and> d < i then Some (a, b, c, d) else None
        | _ \<Rightarrow> None)
     else None)"

lemma kids_less:
  "kids P i = Some (a, b, c, d) \<Longrightarrow> a < i \<and> b < i \<and> c < i \<and> d < i \<and> i < length (arena P)"
  by (auto simp: kids_def split: if_splits option.splits)

lemma kids_fields:
  "kids P i = Some (a, b, c, d) \<Longrightarrow>
     nw (arena P ! i) = Some a \<and> ne (arena P ! i) = Some b
     \<and> sw (arena P ! i) = Some c \<and> se (arena P ! i) = Some d"
  by (auto simp: kids_def split: if_splits option.splits)

function tree_of :: "NodePool \<Rightarrow> nat \<Rightarrow> qtree" where
  "tree_of P i =
    (case kids P i of
       None \<Rightarrow> QLeaf (i < length (arena P) \<and> population (arena P ! i) \<noteq> 0)
     | Some (a, b, c, d) \<Rightarrow> QNode (tree_of P a) (tree_of P b) (tree_of P c) (tree_of P d))"
  by pat_completeness auto
termination
  by (relation "measure snd") (auto dest: kids_less)

declare tree_of.simps [simp del]

definition shape :: "QuadNode \<Rightarrow> int \<times> int \<times> ptr \<times> ptr \<times> ptr \<times> ptr" where
  "shape n = (level n, population n, nw n, ne n, sw n, se n)"

definition shape_ext :: "NodePool \<Rightarrow> NodePool \<Rightarrow> bool" where
  "shape_ext P P' \<longleftrightarrow>
     length (arena P) \<le> length (arena P')
     \<and> (\<forall>i < length (arena P). shape (arena P' ! i) = shape (arena P ! i))"

lemma shape_ext_refl: "shape_ext P P"
  by (simp add: shape_ext_def)

lemma shape_ext_trans: "shape_ext P P' \<Longrightarrow> shape_ext P' P'' \<Longrightarrow> shape_ext P P''"
  by (auto simp: shape_ext_def)

lemma shape_ext_shape:
  "shape_ext P P' \<Longrightarrow> i < length (arena P) \<Longrightarrow>
     level (arena P' ! i) = level (arena P ! i)
     \<and> population (arena P' ! i) = population (arena P ! i)
     \<and> nw (arena P' ! i) = nw (arena P ! i) \<and> ne (arena P' ! i) = ne (arena P ! i)
     \<and> sw (arena P' ! i) = sw (arena P ! i) \<and> se (arena P' ! i) = se (arena P ! i)"
  by (auto simp: shape_ext_def shape_def)

lemma shape_ext_length: "shape_ext P P' \<Longrightarrow> i < length (arena P) \<Longrightarrow> i < length (arena P')"
  by (auto simp: shape_ext_def)

lemma kids_shape_ext: "shape_ext P P' \<Longrightarrow> i < length (arena P) \<Longrightarrow> kids P' i = kids P i"
  using shape_ext_shape[of P P' i] shape_ext_length[of P P' i] by (simp add: kids_def)

lemma tree_of_shape_ext: "shape_ext P P' \<Longrightarrow> i < length (arena P) \<Longrightarrow> tree_of P' i = tree_of P i"
proof (induction i rule: less_induct)
  case (less i)
  show ?case
  proof (cases "kids P i")
    case None
    then show ?thesis
      using less.prems kids_shape_ext[OF less.prems] shape_ext_shape[OF less.prems]
        shape_ext_length[OF less.prems]
      by (simp add: tree_of.simps[of P i] tree_of.simps[of P' i])
  next
    case (Some k)
    obtain a b c d where k: "k = (a, b, c, d)" by (cases k) auto
    have lt: "a < i" "b < i" "c < i" "d < i" "i < length (arena P)"
      using kids_less[of P i a b c d] Some k by simp_all
    have "tree_of P' a = tree_of P a" "tree_of P' b = tree_of P b"
      "tree_of P' c = tree_of P c" "tree_of P' d = tree_of P d"
      using less.IH[of a] less.IH[of b] less.IH[of c] less.IH[of d] lt less.prems(1) by simp_all
    then show ?thesis
      using Some k kids_shape_ext[OF less.prems]
      by (simp add: tree_of.simps[of P i] tree_of.simps[of P' i])
  qed
qed

definition pool_ext :: "NodePool \<Rightarrow> NodePool \<Rightarrow> bool" where
  "pool_ext P P' \<longleftrightarrow>
     shape_ext P P'
     \<and> (\<forall>i < length (arena P). step1_result (arena P ! i) \<noteq> None \<longrightarrow>
            step1_result (arena P' ! i) = step1_result (arena P ! i))"

lemma pool_ext_refl: "pool_ext P P"
  by (simp add: pool_ext_def shape_ext_refl)

lemma pool_ext_trans: "pool_ext P P' \<Longrightarrow> pool_ext P' P'' \<Longrightarrow> pool_ext P P''"
  unfolding pool_ext_def using shape_ext_trans[of P P' P''] shape_ext_length[of P P']
  by auto

lemma pool_ext_shape:
  "pool_ext P P' \<Longrightarrow> i < length (arena P) \<Longrightarrow>
     level (arena P' ! i) = level (arena P ! i)
     \<and> population (arena P' ! i) = population (arena P ! i)
     \<and> nw (arena P' ! i) = nw (arena P ! i) \<and> ne (arena P' ! i) = ne (arena P ! i)
     \<and> sw (arena P' ! i) = sw (arena P ! i) \<and> se (arena P' ! i) = se (arena P ! i)"
  using shape_ext_shape[of P P' i] by (simp add: pool_ext_def)

lemma pool_ext_memo:
  "pool_ext P P' \<Longrightarrow> i < length (arena P) \<Longrightarrow> step1_result (arena P ! i) = Some r \<Longrightarrow>
     step1_result (arena P' ! i) = Some r"
  by (auto simp: pool_ext_def)

lemma pool_ext_length: "pool_ext P P' \<Longrightarrow> i < length (arena P) \<Longrightarrow> i < length (arena P')"
  using shape_ext_length[of P P' i] by (simp add: pool_ext_def)

lemma kids_ext: "pool_ext P P' \<Longrightarrow> i < length (arena P) \<Longrightarrow> kids P' i = kids P i"
  using kids_shape_ext[of P P' i] by (simp add: pool_ext_def)

lemma tree_of_ext: "pool_ext P P' \<Longrightarrow> i < length (arena P) \<Longrightarrow> tree_of P' i = tree_of P i"
  using tree_of_shape_ext[of P P' i] by (simp add: pool_ext_def)

definition node_ok :: "NodePool \<Rightarrow> nat \<Rightarrow> bool" where
  "node_ok P i \<longleftrightarrow>
    (\<exists>a b c d. kids P i = Some (a, b, c, d)
       \<and> level (arena P ! a) = level (arena P ! i) - 1
       \<and> level (arena P ! b) = level (arena P ! i) - 1
       \<and> level (arena P ! c) = level (arena P ! i) - 1
       \<and> level (arena P ! d) = level (arena P ! i) - 1
       \<and> population (arena P ! i) =
           population (arena P ! a) + population (arena P ! b)
           + population (arena P ! c) + population (arena P ! d)
       \<and> map_of (canon P) (Some a, Some b, Some c, Some d) = Some (Some i))"

definition canon_ok :: "NodePool \<Rightarrow> bool" where
  "canon_ok P \<longleftrightarrow>
    (\<forall>k p. map_of (canon P) k = Some p \<longrightarrow>
       (\<exists>i. p = Some i \<and> 2 \<le> i \<and> i < length (arena P)
          \<and> (nw (arena P ! i), ne (arena P ! i), sw (arena P ! i), se (arena P ! i)) = k))"

definition pool_wf :: "NodePool \<Rightarrow> bool" where
  "pool_wf P \<longleftrightarrow>
     2 \<le> length (arena P) \<and> dead_cell P = Some 0 \<and> alive_cell P = Some 1
     \<and> shape (arena P ! 0) = (0, 0, None, None, None, None)
     \<and> shape (arena P ! 1) = (0, 1, None, None, None, None)
     \<and> (\<forall>i. 2 \<le> i \<and> i < length (arena P) \<longrightarrow> node_ok P i)
     \<and> canon_ok P"

lemma pool_wf_clear: "pool_wf NodePool_clear"
  by (auto simp: pool_wf_def NodePool_clear_def alloc_raw_def shape_def canon_ok_def Let_def)

lemma wf_leaf0:
  assumes "pool_wf P"
  shows "kids P 0 = None" "level (arena P ! 0) = 0" "population (arena P ! 0) = 0"
    "tree_of P 0 = QLeaf False" "0 < length (arena P)"
proof -
  have s: "shape (arena P ! 0) = (0, 0, None, None, None, None)" "2 \<le> length (arena P)"
    using assms by (simp_all add: pool_wf_def)
  show k: "kids P 0 = None" by (simp add: kids_def split: option.splits)
  show "tree_of P 0 = QLeaf False"
    by (subst tree_of.simps) (use s k in \<open>simp add: shape_def\<close>)
  show "level (arena P ! 0) = 0" "population (arena P ! 0) = 0" "0 < length (arena P)"
    using s by (auto simp: shape_def)
qed

lemma wf_leaf1:
  assumes "pool_wf P"
  shows "kids P 1 = None" "level (arena P ! 1) = 0" "population (arena P ! 1) = 1"
    "tree_of P 1 = QLeaf True" "1 < length (arena P)"
proof -
  have s: "shape (arena P ! 1) = (0, 1, None, None, None, None)" "2 \<le> length (arena P)"
    using assms by (simp_all add: pool_wf_def)
  show k: "kids P 1 = None" using s by (simp add: kids_def shape_def)
  show "tree_of P 1 = QLeaf True"
    by (subst tree_of.simps) (use s k in \<open>simp add: shape_def\<close>)
  show "level (arena P ! 1) = 0" "population (arena P ! 1) = 1" "1 < length (arena P)"
    using s by (auto simp: shape_def)
qed

lemma wf_node_ok: "pool_wf P \<Longrightarrow> 2 \<le> i \<Longrightarrow> i < length (arena P) \<Longrightarrow> node_ok P i"
  by (simp add: pool_wf_def)

lemma wf_semantics:
  assumes "pool_wf P"
  shows "i < length (arena P) \<Longrightarrow>
    \<exists>k. level (arena P ! i) = int k \<and> full k (tree_of P i)
        \<and> population (arena P ! i) = qpop (tree_of P i)"
proof (induction i rule: less_induct)
  case (less i)
  consider "i = 0" | "i = 1" | "2 \<le> i" by linarith
  then show ?case
  proof cases
    case 1
    then show ?thesis using wf_leaf0[OF assms] by simp
  next
    case 2
    then show ?thesis using wf_leaf1[OF assms] by simp
  next
    case 3
    then have "node_ok P i" using assms less.prems by (simp add: wf_node_ok)
    then obtain a b c d where k: "kids P i = Some (a, b, c, d)"
      and l: "level (arena P ! a) = level (arena P ! i) - 1"
        "level (arena P ! b) = level (arena P ! i) - 1"
        "level (arena P ! c) = level (arena P ! i) - 1"
        "level (arena P ! d) = level (arena P ! i) - 1"
      and p: "population (arena P ! i) =
           population (arena P ! a) + population (arena P ! b)
           + population (arena P ! c) + population (arena P ! d)"
      unfolding node_ok_def by blast
    have lt: "a < i" "b < i" "c < i" "d < i" using kids_less[OF k] by simp_all
    then have len: "a < length (arena P)" "b < length (arena P)" "c < length (arena P)"
      "d < length (arena P)" using less.prems by simp_all
    obtain ka where a: "level (arena P ! a) = int ka" "full ka (tree_of P a)"
      "population (arena P ! a) = qpop (tree_of P a)"
      using less.IH[OF lt(1) len(1)] by blast
    obtain kb where b: "level (arena P ! b) = int kb" "full kb (tree_of P b)"
      "population (arena P ! b) = qpop (tree_of P b)"
      using less.IH[OF lt(2) len(2)] by blast
    obtain kc where c: "level (arena P ! c) = int kc" "full kc (tree_of P c)"
      "population (arena P ! c) = qpop (tree_of P c)"
      using less.IH[OF lt(3) len(3)] by blast
    obtain kd where d: "level (arena P ! d) = int kd" "full kd (tree_of P d)"
      "population (arena P ! d) = qpop (tree_of P d)"
      using less.IH[OF lt(4) len(4)] by blast
    have e: "kb = ka" "kc = ka" "kd = ka" using l a(1) b(1) c(1) d(1) by simp_all
    have t: "tree_of P i = QNode (tree_of P a) (tree_of P b) (tree_of P c) (tree_of P d)"
      using k by (simp add: tree_of.simps[of P i])
    have "level (arena P ! i) = int (Suc ka)" using l(1) a(1) by simp
    moreover have "full (Suc ka) (tree_of P i)" using a(2) b(2) c(2) d(2) e t by simp
    moreover have "population (arena P ! i) = qpop (tree_of P i)"
      using p a(3) b(3) c(3) d(3) t by simp
    ultimately show ?thesis by blast
  qed
qed

definition den :: "NodePool \<Rightarrow> nat \<Rightarrow> nat \<Rightarrow> qtree \<Rightarrow> bool" where
  "den P p k t \<longleftrightarrow> p < length (arena P) \<and> level (arena P ! p) = int k \<and> tree_of P p = t"

lemma den_ext: "den P p k t \<Longrightarrow> pool_ext P P' \<Longrightarrow> den P' p k t"
  using pool_ext_shape[of P P' p] pool_ext_length[of P P' p] tree_of_ext[of P P' p]
  by (simp add: den_def)

lemma den_full: "pool_wf P \<Longrightarrow> den P p k t \<Longrightarrow> full k t"
  using wf_semantics[of P p] by (auto simp: den_def)

lemma den_pop: "pool_wf P \<Longrightarrow> den P p k t \<Longrightarrow> population (arena P ! p) = qpop t"
  using wf_semantics[of P p] by (auto simp: den_def)

lemma den_exists:
  "pool_wf P \<Longrightarrow> p < length (arena P) \<Longrightarrow> \<exists>k. den P p k (tree_of P p)"
  using wf_semantics[of P p] by (auto simp: den_def)

lemma den_children:
  assumes "pool_wf P" and "den P p (Suc k) t"
  obtains a b c d where "kids P p = Some (a, b, c, d)"
    "den P a k (qnw t)" "den P b k (qne t)" "den P c k (qsw t)" "den P d k (qse t)"
proof -
  have p: "p < length (arena P)" "level (arena P ! p) = int (Suc k)" "tree_of P p = t"
    using assms(2) by (simp_all add: den_def)
  have "2 \<le> p"
  proof (rule ccontr)
    assume "\<not> 2 \<le> p"
    then consider "p = 0" | "p = 1" by linarith
    then show False using p(2) wf_leaf0(2)[OF assms(1)] wf_leaf1(2)[OF assms(1)] by cases simp_all
  qed
  then have "node_ok P p" using assms(1) p(1) by (simp add: wf_node_ok)
  then obtain a b c d where kd: "kids P p = Some (a, b, c, d)"
    and l: "level (arena P ! a) = level (arena P ! p) - 1"
      "level (arena P ! b) = level (arena P ! p) - 1"
      "level (arena P ! c) = level (arena P ! p) - 1"
      "level (arena P ! d) = level (arena P ! p) - 1"
    unfolding node_ok_def by blast
  have lt: "a < length (arena P)" "b < length (arena P)" "c < length (arena P)"
    "d < length (arena P)" using kids_less[OF kd] by simp_all
  have t: "t = QNode (tree_of P a) (tree_of P b) (tree_of P c) (tree_of P d)"
    using kd p(3) by (simp add: tree_of.simps[of P p])
  show ?thesis
    by (rule that[OF kd]) (use l lt p(2) t in \<open>simp_all add: den_def\<close>)
qed

definition fresh_node :: "NodePool \<Rightarrow> nat \<Rightarrow> nat \<Rightarrow> nat \<Rightarrow> nat \<Rightarrow> QuadNode" where
  "fresh_node P a b c d =
    \<lparr>level = level (arena P ! a) + 1,
     population = population (arena P ! a) + population (arena P ! b)
        + population (arena P ! c) + population (arena P ! d),
     nw = Some a, ne = Some b, sw = Some c, se = Some d, step1_result = None\<rparr>"

definition added :: "NodePool \<Rightarrow> nat \<Rightarrow> nat \<Rightarrow> nat \<Rightarrow> nat \<Rightarrow> NodePool" where
  "added P a b c d =
    P\<lparr>arena := arena P @ [fresh_node P a b c d],
      canon := AList.update (Some a, Some b, Some c, Some d) (Some (length (arena P))) (canon P)\<rparr>"

lemma deref_Some: "i < length (arena P) \<Longrightarrow> deref P (Some i) = Inr (arena P ! i)"
  by (simp add: deref_def)

lemma make_unfold:
  assumes "a < length (arena P)" "b < length (arena P)" "c < length (arena P)"
    "d < length (arena P)"
    and "level (arena P ! b) = level (arena P ! a)" "level (arena P ! c) = level (arena P ! a)"
      "level (arena P ! d) = level (arena P ! a)"
  shows "make (Some a) (Some b) (Some c) (Some d) P =
    (case map_of (canon P) (Some a, Some b, Some c, Some d) of
       Some node \<Rightarrow> Inr (node, P)
     | None \<Rightarrow> Inr (Some (length (arena P)), added P a b c d))"
  using assms
  by (simp add: make_def deref_Some alloc_raw_def added_def fresh_node_def Let_def
      split: option.splits)

lemma pool_ext_added: "pool_ext P (added P a b c d)"
  by (simp add: pool_ext_def shape_ext_def added_def nth_append)

lemma added_old:
  "i < length (arena P) \<Longrightarrow> arena (added P a b c d) ! i = arena P ! i"
  by (simp add: added_def nth_append)

lemma added_new:
  "arena (added P a b c d) ! length (arena P) = fresh_node P a b c d"
  "length (arena (added P a b c d)) = Suc (length (arena P))"
  "empty_cache (added P a b c d) = empty_cache P"
  "dead_cell (added P a b c d) = dead_cell P"
  "alive_cell (added P a b c d) = alive_cell P"
  by (simp_all add: added_def)

lemma kids_added_new:
  assumes "a < length (arena P)" "b < length (arena P)" "c < length (arena P)"
    "d < length (arena P)"
  shows "kids (added P a b c d) (length (arena P)) = Some (a, b, c, d)"
  using assms by (simp add: kids_def added_new fresh_node_def)

lemma pool_wf_added:
  assumes "pool_wf P"
    and "a < length (arena P)" "b < length (arena P)" "c < length (arena P)"
      "d < length (arena P)"
    and "level (arena P ! b) = level (arena P ! a)" "level (arena P ! c) = level (arena P ! a)"
      "level (arena P ! d) = level (arena P ! a)"
    and "map_of (canon P) (Some a, Some b, Some c, Some d) = None"
  shows "pool_wf (added P a b c d)"
proof -
  let ?Q = "added P a b c d"
  let ?n = "length (arena P)"
  let ?key = "(Some a, Some b, Some c, Some d)"
  note ext = pool_ext_added[of P a b c d]
  have len2: "2 \<le> ?n" using assms(1) by (simp add: pool_wf_def)
  have mo: "map_of (canon ?Q) k = (if k = ?key then Some (Some ?n) else map_of (canon P) k)" for k
    by (simp add: added_def update_conv')
  have old_node: "node_ok ?Q i" if i: "2 \<le> i" "i < ?n" for i
  proof -
    have "node_ok P i" using assms(1) i by (simp add: wf_node_ok)
    then obtain a' b' c' d' where k: "kids P i = Some (a', b', c', d')"
      and l: "level (arena P ! a') = level (arena P ! i) - 1"
        "level (arena P ! b') = level (arena P ! i) - 1"
        "level (arena P ! c') = level (arena P ! i) - 1"
        "level (arena P ! d') = level (arena P ! i) - 1"
      and p: "population (arena P ! i) =
           population (arena P ! a') + population (arena P ! b')
           + population (arena P ! c') + population (arena P ! d')"
      and m: "map_of (canon P) (Some a', Some b', Some c', Some d') = Some (Some i)"
      unfolding node_ok_def by blast
    have lt: "a' < ?n" "b' < ?n" "c' < ?n" "d' < ?n" using kids_less[OF k] i(2) by simp_all
    have ne: "(Some a', Some b', Some c', Some d') \<noteq> ?key" using m assms(9) by auto
    show ?thesis
      unfolding node_ok_def
      apply (rule exI[of _ a'], rule exI[of _ b'], rule exI[of _ c'], rule exI[of _ d'])
      using k l p m ne lt i(2) kids_ext[OF ext i(2)]
      by (simp add: added_old mo)
  qed
  have new_node: "node_ok ?Q ?n"
    unfolding node_ok_def
    apply (rule exI[of _ a], rule exI[of _ b], rule exI[of _ c], rule exI[of _ d])
    using assms(2-8) kids_added_new[OF assms(2-5)]
    by (simp add: added_old added_new mo fresh_node_def)
  have nodes: "node_ok ?Q i" if "2 \<le> i" "i < length (arena ?Q)" for i
    using that old_node[of i] new_node by (cases "i = ?n") (simp_all add: added_new)
  have can: "canon_ok ?Q"
    unfolding canon_ok_def
  proof (intro allI impI)
    fix k p assume kp: "map_of (canon ?Q) k = Some p"
    show "\<exists>i. p = Some i \<and> 2 \<le> i \<and> i < length (arena ?Q)
        \<and> (nw (arena ?Q ! i), ne (arena ?Q ! i), sw (arena ?Q ! i), se (arena ?Q ! i)) = k"
    proof (cases "k = ?key")
      case True
      then have "p = Some ?n" using kp by (simp add: mo)
      then show ?thesis using True len2 by (simp add: added_new fresh_node_def)
    next
      case False
      then have "map_of (canon P) k = Some p" using kp by (simp add: mo)
      then obtain i where "p = Some i" "2 \<le> i" "i < ?n"
        "(nw (arena P ! i), ne (arena P ! i), sw (arena P ! i), se (arena P ! i)) = k"
        using assms(1) unfolding pool_wf_def canon_ok_def by blast
      then show ?thesis by (simp add: added_old added_new)
    qed
  qed
  have n01: "0 < ?n" "1 < ?n" using len2 by linarith+
  have "arena ?Q ! 0 = arena P ! 0" "arena ?Q ! 1 = arena P ! 1"
    using added_old[OF n01(1)] added_old[OF n01(2)] by blast+
  then show ?thesis
    unfolding pool_wf_def
    using assms(1) len2 nodes can
    by (simp add: pool_wf_def added_new)
qed

lemma canon_hit:
  assumes "pool_wf P" and "map_of (canon P) (Some a, Some b, Some c, Some d) = Some node"
  obtains r where "node = Some r" "2 \<le> r" "r < length (arena P)"
    "kids P r = Some (a, b, c, d)" "level (arena P ! r) = level (arena P ! a) + 1"
    "population (arena P ! r) = population (arena P ! a) + population (arena P ! b)
        + population (arena P ! c) + population (arena P ! d)"
proof -
  obtain r where r: "node = Some r" "2 \<le> r" "r < length (arena P)"
    "(nw (arena P ! r), ne (arena P ! r), sw (arena P ! r), se (arena P ! r))
       = (Some a, Some b, Some c, Some d)"
    using assms unfolding pool_wf_def canon_ok_def by blast
  have "node_ok P r" using assms(1) r(2,3) by (simp add: wf_node_ok)
  then obtain a' b' c' d' where k: "kids P r = Some (a', b', c', d')"
    and l: "level (arena P ! a') = level (arena P ! r) - 1"
    and p: "population (arena P ! r) =
           population (arena P ! a') + population (arena P ! b')
           + population (arena P ! c') + population (arena P ! d')"
    unfolding node_ok_def by blast
  have e: "a' = a" "b' = b" "c' = c" "d' = d" using kids_fields[OF k] r(4) by simp_all
  show ?thesis
    by (rule that[OF r(1-3)]) (use k l p e in simp_all)
qed

text \<open>
  The invariant of the memo field and of the cache of empty nodes: a memoized result is
  the center one generation later, and a cached node of level \<open>l\<close> is an empty node of
  that level.  \<open>pool_inv\<close> holds after \<^verbatim>\<open>clear\<close> and is kept by every operation below.
\<close>

definition memo_ok :: "NodePool \<Rightarrow> bool" where
  "memo_ok P \<longleftrightarrow>
    (\<forall>i r. i < length (arena P) \<and> step1_result (arena P ! i) = Some r \<longrightarrow>
       (\<exists>k. r < length (arena P) \<and> level (arena P ! i) = int (Suc (Suc k))
          \<and> level (arena P ! r) = int (Suc k)
          \<and> advanced k (tree_of P i) (tree_of P r)))"

definition cache_ok :: "NodePool \<Rightarrow> bool" where
  "cache_ok P \<longleftrightarrow>
    (\<forall>l p. l < length (empty_cache P) \<and> empty_cache P ! l = Some p \<longrightarrow>
       p < length (arena P) \<and> level (arena P ! p) = int l \<and> population (arena P ! p) = 0)"

definition pool_inv :: "NodePool \<Rightarrow> bool" where
  "pool_inv P \<longleftrightarrow> pool_wf P \<and> memo_ok P \<and> cache_ok P"

lemma pool_inv_clear: "pool_inv NodePool_clear"
proof -
  have "memo_ok NodePool_clear"
    by (auto simp: memo_ok_def NodePool_clear_def alloc_raw_def Let_def nth_Cons
        split: nat.splits)
  moreover have "cache_ok NodePool_clear"
    by (simp add: cache_ok_def NodePool_clear_def alloc_raw_def Let_def)
  ultimately show ?thesis by (simp add: pool_inv_def pool_wf_clear)
qed

definition same_shape :: "NodePool \<Rightarrow> NodePool \<Rightarrow> bool" where
  "same_shape P P' \<longleftrightarrow>
     shape_ext P P' \<and> shape_ext P' P \<and> canon P' = canon P
     \<and> dead_cell P' = dead_cell P \<and> alive_cell P' = alive_cell P"

lemma same_shape_length: "same_shape P P' \<Longrightarrow> length (arena P') = length (arena P)"
  by (auto simp: same_shape_def shape_ext_def)

lemma same_shape_tree: "same_shape P P' \<Longrightarrow> tree_of P' i = tree_of P i"
proof (cases "i < length (arena P)")
  case True
  assume "same_shape P P'"
  then show ?thesis using True tree_of_shape_ext[of P P' i] by (simp add: same_shape_def)
next
  case False
  assume s: "same_shape P P'"
  then have "\<not> i < length (arena P')" using False same_shape_length by simp
  then show ?thesis
    using False by (simp add: tree_of.simps[of P i] tree_of.simps[of P' i] kids_def)
qed

lemma same_shape_wf:
  assumes "same_shape P P'" and "pool_wf P"
  shows "pool_wf P'"
proof -
  note len = same_shape_length[OF assms(1)]
  have ext: "shape_ext P P'" and can: "canon P' = canon P"
    and dc: "dead_cell P' = dead_cell P" "alive_cell P' = alive_cell P"
    using assms(1) by (simp_all add: same_shape_def)
  have sh: "shape (arena P' ! i) = shape (arena P ! i)" if "i < length (arena P)" for i
    using ext that by (simp add: shape_ext_def)
  note fld = shape_ext_shape[OF ext]
  have len2: "2 \<le> length (arena P)" using assms(2) by (simp add: pool_wf_def)
  then have n01: "0 < length (arena P)" "1 < length (arena P)" by linarith+
  have nodes: "node_ok P' i" if i: "2 \<le> i" "i < length (arena P')" for i
  proof -
    have i': "i < length (arena P)" using i(2) len by simp
    have "node_ok P i" using assms(2) i(1) i' by (simp add: wf_node_ok)
    then obtain a b c d where k: "kids P i = Some (a, b, c, d)"
      and r: "level (arena P ! a) = level (arena P ! i) - 1"
        "level (arena P ! b) = level (arena P ! i) - 1"
        "level (arena P ! c) = level (arena P ! i) - 1"
        "level (arena P ! d) = level (arena P ! i) - 1"
        "population (arena P ! i) =
           population (arena P ! a) + population (arena P ! b)
           + population (arena P ! c) + population (arena P ! d)"
        "map_of (canon P) (Some a, Some b, Some c, Some d) = Some (Some i)"
      unfolding node_ok_def by blast
    have lt: "a < length (arena P)" "b < length (arena P)" "c < length (arena P)"
      "d < length (arena P)" using kids_less[OF k] by simp_all
    show ?thesis
      unfolding node_ok_def
      apply (rule exI[of _ a], rule exI[of _ b], rule exI[of _ c], rule exI[of _ d])
      using k r kids_shape_ext[OF ext i'] fld[OF i'] fld[OF lt(1)] fld[OF lt(2)] fld[OF lt(3)]
        fld[OF lt(4)] can
      by simp
  qed
  have "canon_ok P'"
    unfolding canon_ok_def
  proof (intro allI impI)
    fix k p assume "map_of (canon P') k = Some p"
    then have "map_of (canon P) k = Some p" by (simp add: can)
    then obtain i where i: "p = Some i" "2 \<le> i" "i < length (arena P)"
      "(nw (arena P ! i), ne (arena P ! i), sw (arena P ! i), se (arena P ! i)) = k"
      using assms(2) unfolding pool_wf_def canon_ok_def by blast
    then show "\<exists>i. p = Some i \<and> 2 \<le> i \<and> i < length (arena P')
        \<and> (nw (arena P' ! i), ne (arena P' ! i), sw (arena P' ! i), se (arena P' ! i)) = k"
      using fld[OF i(3)] len by simp
  qed
  then show ?thesis
    using assms(2) nodes sh[OF n01(1)] sh[OF n01(2)] len dc
    by (simp add: pool_wf_def)
qed

lemma same_shape_cache:
  assumes "same_shape P P'" and "cache_ok P" and "empty_cache P' = empty_cache P"
  shows "cache_ok P'"
  unfolding cache_ok_def
proof (intro allI impI)
  fix l p assume "l < length (empty_cache P') \<and> empty_cache P' ! l = Some p"
  then have p: "p < length (arena P)" "level (arena P ! p) = int l" "population (arena P ! p) = 0"
    using assms(2,3) by (simp_all add: cache_ok_def)
  have ext: "shape_ext P P'" using assms(1) by (simp add: same_shape_def)
  show "p < length (arena P') \<and> level (arena P' ! p) = int l \<and> population (arena P' ! p) = 0"
    using p shape_ext_shape[OF ext p(1)] shape_ext_length[OF ext p(1)] by simp
qed

lemma memo_ok_added: "memo_ok P \<Longrightarrow> memo_ok (added P a b c d)"
  unfolding memo_ok_def
proof (intro allI impI)
  fix i r
  assume m: "\<forall>i r. i < length (arena P) \<and> step1_result (arena P ! i) = Some r \<longrightarrow>
       (\<exists>k. r < length (arena P) \<and> level (arena P ! i) = int (Suc (Suc k))
          \<and> level (arena P ! r) = int (Suc k)
          \<and> advanced k (tree_of P i) (tree_of P r))"
  let ?Q = "added P a b c d"
  assume ir: "i < length (arena ?Q) \<and> step1_result (arena ?Q ! i) = Some r"
  note ext = pool_ext_added[of P a b c d]
  have "i \<noteq> length (arena P)" using ir by (auto simp: added_new fresh_node_def)
  then have i: "i < length (arena P)" using ir by (simp add: added_new)
  then have "step1_result (arena P ! i) = Some r" using ir by (simp add: added_old)
  then obtain k where k: "r < length (arena P)" "level (arena P ! i) = int (Suc (Suc k))"
    "level (arena P ! r) = int (Suc k)" "advanced k (tree_of P i) (tree_of P r)"
    using m i by blast
  show "\<exists>k. r < length (arena ?Q) \<and> level (arena ?Q ! i) = int (Suc (Suc k))
          \<and> level (arena ?Q ! r) = int (Suc k)
          \<and> advanced k (tree_of ?Q i) (tree_of ?Q r)"
    apply (rule exI[of _ k])
    using k i tree_of_ext[OF ext i] tree_of_ext[OF ext k(1)]
    by (simp add: added_old added_new)
qed

lemma cache_ok_added: "cache_ok P \<Longrightarrow> cache_ok (added P a b c d)"
  by (auto simp: cache_ok_def added_new added_old less_Suc_eq)

lemma make_spec:
  assumes "pool_inv P" "den P a k ta" "den P b k tb" "den P c k tc" "den P d k td"
  obtains r P' where "make (Some a) (Some b) (Some c) (Some d) P = Inr (Some r, P')"
    "pool_inv P'" "pool_ext P P'" "den P' r (Suc k) (QNode ta tb tc td)"
    "kids P' r = Some (a, b, c, d)" "empty_cache P' = empty_cache P"
proof -
  have wf: "pool_wf P" using assms(1) by (simp add: pool_inv_def)
  have lt: "a < length (arena P)" "b < length (arena P)" "c < length (arena P)"
    "d < length (arena P)" using assms(2-5) by (simp_all add: den_def)
  have lv: "level (arena P ! a) = int k" "level (arena P ! b) = level (arena P ! a)"
    "level (arena P ! c) = level (arena P ! a)" "level (arena P ! d) = level (arena P ! a)"
    using assms(2-5) by (simp_all add: den_def)
  have tr: "tree_of P a = ta" "tree_of P b = tb" "tree_of P c = tc" "tree_of P d = td"
    using assms(2-5) by (simp_all add: den_def)
  note mk = make_unfold[OF lt lv(2-4)]
  show ?thesis
  proof (cases "map_of (canon P) (Some a, Some b, Some c, Some d)")
    case (Some node)
    obtain r where r: "node = Some r" "2 \<le> r" "r < length (arena P)"
      "kids P r = Some (a, b, c, d)" "level (arena P ! r) = level (arena P ! a) + 1"
      using canon_hit[OF wf Some] by blast
    have "tree_of P r = QNode ta tb tc td"
      using r(4) tr by (simp add: tree_of.simps[of P r])
    then have "den P r (Suc k) (QNode ta tb tc td)"
      using r(3,5) lv(1) by (simp add: den_def)
    moreover have "make (Some a) (Some b) (Some c) (Some d) P = Inr (Some r, P)"
      using mk Some r(1) by simp
    ultimately show ?thesis
      using that[of r P] assms(1) r(4) pool_ext_refl by blast
  next
    case None
    let ?Q = "added P a b c d"
    let ?r = "length (arena P)"
    note ext = pool_ext_added[of P a b c d]
    have "pool_wf ?Q" using wf lt lv(2-4) None by (rule pool_wf_added)
    then have inv: "pool_inv ?Q"
      using assms(1) by (simp add: pool_inv_def memo_ok_added cache_ok_added)
    have kd: "kids ?Q ?r = Some (a, b, c, d)" using lt by (rule kids_added_new)
    have "tree_of ?Q ?r = QNode ta tb tc td"
      using kd tr tree_of_ext[OF ext lt(1)] tree_of_ext[OF ext lt(2)]
        tree_of_ext[OF ext lt(3)] tree_of_ext[OF ext lt(4)]
      by (simp add: tree_of.simps[of ?Q ?r])
    then have "den ?Q ?r (Suc k) (QNode ta tb tc td)"
      using lv(1) by (simp add: den_def added_new fresh_node_def)
    moreover have "make (Some a) (Some b) (Some c) (Some d) P = Inr (Some ?r, ?Q)"
      using mk None by simp
    ultimately show ?thesis
      using that[of ?r ?Q] inv ext kd by (simp add: added_new)
  qed
qed

lemma memo_ok_same_shape:
  assumes "same_shape P P'" and "memo_ok P"
    and "\<And>i. i < length (arena P) \<Longrightarrow> step1_result (arena P' ! i) = step1_result (arena P ! i)"
  shows "memo_ok P'"
  unfolding memo_ok_def
proof (intro allI impI)
  fix i r assume ir: "i < length (arena P') \<and> step1_result (arena P' ! i) = Some r"
  have ext: "shape_ext P P'" using assms(1) by (simp add: same_shape_def)
  note len = same_shape_length[OF assms(1)]
  have i: "i < length (arena P)" using ir len by simp
  then have "step1_result (arena P ! i) = Some r" using ir assms(3) by simp
  then obtain k where k: "r < length (arena P)" "level (arena P ! i) = int (Suc (Suc k))"
    "level (arena P ! r) = int (Suc k)" "advanced k (tree_of P i) (tree_of P r)"
    using assms(2) i unfolding memo_ok_def by blast
  show "\<exists>k. r < length (arena P') \<and> level (arena P' ! i) = int (Suc (Suc k))
          \<and> level (arena P' ! r) = int (Suc k)
          \<and> advanced k (tree_of P' i) (tree_of P' r)"
    apply (rule exI[of _ k])
    using k len shape_ext_shape[OF ext i] shape_ext_shape[OF ext k(1)]
      same_shape_tree[OF assms(1)]
    by simp
qed

lemma same_shape_set_cache: "same_shape P (P\<lparr>empty_cache := c\<rparr>)"
  by (simp add: same_shape_def shape_ext_def)

lemma pool_inv_set_cache:
  assumes "pool_inv P"
    and "\<And>l p. l < length c \<Longrightarrow> c ! l = Some p \<Longrightarrow>
      p < length (arena P) \<and> level (arena P ! p) = int l \<and> population (arena P ! p) = 0"
  shows "pool_inv (P\<lparr>empty_cache := c\<rparr>)"
proof -
  note s = same_shape_set_cache[of P c]
  have "pool_wf (P\<lparr>empty_cache := c\<rparr>)"
    using s assms(1) by (simp add: same_shape_wf pool_inv_def)
  moreover have "memo_ok (P\<lparr>empty_cache := c\<rparr>)"
    by (rule memo_ok_same_shape[OF s]) (use assms(1) in \<open>simp_all add: pool_inv_def\<close>)
  moreover have "cache_ok (P\<lparr>empty_cache := c\<rparr>)"
    using assms(2) by (auto simp: cache_ok_def)
  ultimately show ?thesis by (simp add: pool_inv_def)
qed

lemma pool_ext_set_cache: "pool_ext P (P\<lparr>empty_cache := c\<rparr>)"
  by (simp add: pool_ext_def shape_ext_def)

lemma den_leaf0: "pool_wf P \<Longrightarrow> den P 0 0 (QLeaf False)"
  using wf_leaf0[of P] by (simp add: den_def)

lemma den_leaf1: "pool_wf P \<Longrightarrow> den P 1 0 (QLeaf True)"
  using wf_leaf1[of P] by (simp add: den_def)

lemma empty_node_Suc:
  "empty_node (int (Suc l)) P =
    (if Suc l < length (empty_cache P) \<and> empty_cache P ! Suc l \<noteq> None
     then Inr (empty_cache P ! Suc l, P)
     else
       let P1 = (if length (empty_cache P) \<le> Suc l
                 then P\<lparr>empty_cache := empty_cache P
                        @ replicate (Suc l + 1 - length (empty_cache P)) None\<rparr>
                 else P)
       in bindE (empty_node (int l) P1) (\<lambda>(sub, P2).
          bindE (make sub sub sub sub P2) (\<lambda>(node, P3).
          Inr (node, P3\<lparr>empty_cache := (empty_cache P3)[Suc l := node]\<rparr>))))"
proof -
  have n: "nat (1 + int l) = Suc l" "nat (int l + 1) = Suc l" by simp_all
  have c: "(1 + int l < int m) = (Suc l < m)" "(int m \<le> 1 + int l) = (m \<le> Suc l)" for m
    by linarith+
  show ?thesis
    by (subst empty_node.simps) (auto simp: n c Let_def)
qed

lemma empty_node_spec:
  "pool_inv P \<Longrightarrow>
     \<exists>r P' t. empty_node (int l) P = Inr (Some r, P') \<and> pool_inv P' \<and> pool_ext P P'
        \<and> den P' r l t \<and> qpop t = 0"
proof (induction l arbitrary: P)
  case 0
  have wf: "pool_wf P" using 0 by (simp add: pool_inv_def)
  then have "dead_cell P = Some 0" by (simp add: pool_wf_def)
  then have "empty_node (int 0) P = Inr (Some 0, P)" by (simp add: empty_node.simps)
  then show ?case using 0 den_leaf0[OF wf] pool_ext_refl[of P] by fastforce
next
  case (Suc l)
  have wf: "pool_wf P" and co: "cache_ok P" using Suc.prems by (simp_all add: pool_inv_def)
  show ?case
  proof (cases "Suc l < length (empty_cache P) \<and> empty_cache P ! Suc l \<noteq> None")
    case True
    then obtain p where p: "empty_cache P ! Suc l = Some p" by auto
    then have pf: "p < length (arena P)" "level (arena P ! p) = int (Suc l)"
      "population (arena P ! p) = 0"
      using co True unfolding cache_ok_def by blast+
    have d: "den P p (Suc l) (tree_of P p)" using pf by (simp add: den_def)
    have "qpop (tree_of P p) = 0" using den_pop[OF wf d] pf(3) by simp
    moreover have "empty_node (int (Suc l)) P = Inr (Some p, P)"
      using True p by (subst empty_node_Suc) simp
    ultimately show ?thesis using d Suc.prems pool_ext_refl[of P] by blast
  next
    case False
    define P1 where "P1 =
      (if length (empty_cache P) \<le> Suc l
       then P\<lparr>empty_cache := empty_cache P
              @ replicate (Suc l + 1 - length (empty_cache P)) None\<rparr>
       else P)"
    have inv1: "pool_inv P1"
    proof (cases "length (empty_cache P) \<le> Suc l")
      case True
      have "pool_inv (P\<lparr>empty_cache := empty_cache P
              @ replicate (Suc l + 1 - length (empty_cache P)) None\<rparr>)"
      proof (rule pool_inv_set_cache[OF Suc.prems])
        fix j p
        assume "j < length (empty_cache P
              @ replicate (Suc l + 1 - length (empty_cache P)) None)"
          and "(empty_cache P
              @ replicate (Suc l + 1 - length (empty_cache P)) None) ! j = Some p"
        then have "j < length (empty_cache P) \<and> empty_cache P ! j = Some p"
          by (auto simp: nth_append split: if_splits)
        then show "p < length (arena P) \<and> level (arena P ! p) = int j
            \<and> population (arena P ! p) = 0"
          using co unfolding cache_ok_def by blast
      qed
      then show ?thesis using True by (simp add: P1_def)
    next
      case False
      then show ?thesis using Suc.prems by (simp add: P1_def)
    qed
    have ext1: "pool_ext P P1"
      by (simp add: P1_def pool_ext_set_cache pool_ext_refl)
    obtain sub P2 t where s: "empty_node (int l) P1 = Inr (Some sub, P2)" "pool_inv P2"
      "pool_ext P1 P2" "den P2 sub l t" "qpop t = 0"
      using Suc.IH[OF inv1] by blast
    obtain node P3 where m: "make (Some sub) (Some sub) (Some sub) (Some sub) P2 = Inr (Some node, P3)"
      "pool_inv P3" "pool_ext P2 P3" "den P3 node (Suc l) (QNode t t t t)"
      using make_spec[OF s(2) s(4) s(4) s(4) s(4)] by blast
    define P4 where "P4 = P3\<lparr>empty_cache := (empty_cache P3)[Suc l := Some node]\<rparr>"
    have wf3: "pool_wf P3" and co3: "cache_ok P3" using m(2) by (simp_all add: pool_inv_def)
    have pop: "population (arena P3 ! node) = 0"
      using den_pop[OF wf3 m(4)] s(5) by simp
    have inv4: "pool_inv P4"
      unfolding P4_def
    proof (rule pool_inv_set_cache[OF m(2)])
      fix j p
      assume j: "j < length ((empty_cache P3)[Suc l := Some node])"
        and e: "(empty_cache P3)[Suc l := Some node] ! j = Some p"
      show "p < length (arena P3) \<and> level (arena P3 ! p) = int j
          \<and> population (arena P3 ! p) = 0"
      proof (cases "j = Suc l")
        case True
        then have "p = node" using j e by simp
        then show ?thesis using m(4) pop True by (simp add: den_def)
      next
        case False
        then have "j < length (empty_cache P3) \<and> empty_cache P3 ! j = Some p"
          using j e by simp
        then show ?thesis using co3 unfolding cache_ok_def by blast
      qed
    qed
    have ext4: "pool_ext P3 P4" by (simp add: P4_def pool_ext_set_cache)
    have run: "empty_node (int (Suc l)) P = Inr (Some node, P4)"
      using False s(1) m(1)
      by (subst empty_node_Suc) (simp add: P1_def[symmetric] P4_def Let_def)
    have "pool_ext P P4"
      using ext1 s(3) m(3) ext4 pool_ext_trans by blast
    moreover have "den P4 node (Suc l) (QNode t t t t)" using m(4) ext4 by (rule den_ext)
    moreover have "qpop (QNode t t t t) = 0" using s(5) by simp
    ultimately show ?thesis using run inv4 by blast
  qed
qed

section \<open>The operations on a well-formed pool\<close>
lemma make_of_Inr [simp]: "make_of P (Inr a) (Inr b) (Inr c) (Inr d) = make a b c d P"
  by (simp add: make_of_def)

lemma field_Some: "p < length (arena P) \<Longrightarrow> field f (Some p) P = Inr (f (arena P ! p))"
  by (simp add: field_def deref_Some)

lemma read_kids:
  assumes "kids P p = Some (a, b, c, d)" and "pool_ext P P'"
  shows "field nw (Some p) P' = Inr (Some a)" "field ne (Some p) P' = Inr (Some b)"
    "field sw (Some p) P' = Inr (Some c)" "field se (Some p) P' = Inr (Some d)"
proof -
  have p: "p < length (arena P)" using kids_less[OF assms(1)] by simp
  note f = kids_fields[OF assms(1)]
  note s = pool_ext_shape[OF assms(2) p]
  note l = pool_ext_length[OF assms(2) p]
  show "field nw (Some p) P' = Inr (Some a)" "field ne (Some p) P' = Inr (Some b)"
    "field sw (Some p) P' = Inr (Some c)" "field se (Some p) P' = Inr (Some d)"
    using f s l by (simp_all add: field_Some)
qed

lemma read_level:
  "den P p k t \<Longrightarrow> field level (Some p) P = Inr (int k)"
  by (simp add: den_def field_Some)

lemma read_population:
  "pool_wf P \<Longrightarrow> den P p k t \<Longrightarrow> field population (Some p) P = Inr (qpop t)"
  using den_pop[of P p k t] by (simp add: den_def field_Some)

lemma center_spec:
  assumes "pool_inv P" and "den P p (Suc (Suc k)) t"
  obtains r P' where "center (Some p) P = Inr (Some r, P')" "pool_inv P'" "pool_ext P P'"
    "den P' r (Suc k) (qcenter t)"
proof -
  have wf: "pool_wf P" using assms(1) by (simp add: pool_inv_def)
  obtain a b c d where k: "kids P p = Some (a, b, c, d)"
    and d: "den P a (Suc k) (qnw t)" "den P b (Suc k) (qne t)"
      "den P c (Suc k) (qsw t)" "den P d (Suc k) (qse t)"
    using den_children[OF wf assms(2)] by blast
  obtain a1 a2 a3 a4 where ka: "kids P a = Some (a1, a2, a3, a4)"
    and da': "den P a1 k (qnw (qnw t))" "den P a2 k (qne (qnw t))"
      "den P a3 k (qsw (qnw t))" "den P a4 k (qse (qnw t))"
    using den_children[OF wf d(1)] by blast
  obtain b1 b2 b3 b4 where kb: "kids P b = Some (b1, b2, b3, b4)"
    and db': "den P b1 k (qnw (qne t))" "den P b2 k (qne (qne t))"
      "den P b3 k (qsw (qne t))" "den P b4 k (qse (qne t))"
    using den_children[OF wf d(2)] by blast
  obtain c1 c2 c3 c4 where kc: "kids P c = Some (c1, c2, c3, c4)"
    and dc': "den P c1 k (qnw (qsw t))" "den P c2 k (qne (qsw t))"
      "den P c3 k (qsw (qsw t))" "den P c4 k (qse (qsw t))"
    using den_children[OF wf d(3)] by blast
  obtain d1 d2 d3 d4 where kd: "kids P d = Some (d1, d2, d3, d4)"
    and dd': "den P d1 k (qnw (qse t))" "den P d2 k (qne (qse t))"
      "den P d3 k (qsw (qse t))" "den P d4 k (qse (qse t))"
    using den_children[OF wf d(4)] by blast
  note da = da'(4) and db = db'(3) and dc = dc'(2) and dd = dd'(1)
  note r = read_kids[OF k pool_ext_refl] read_kids[OF ka pool_ext_refl]
    read_kids[OF kb pool_ext_refl] read_kids[OF kc pool_ext_refl] read_kids[OF kd pool_ext_refl]
  have c: "center (Some p) P = make (Some a4) (Some b3) (Some c2) (Some d1) P"
    by (simp add: center_def field2_def r)
  obtain r' P' where m: "make (Some a4) (Some b3) (Some c2) (Some d1) P = Inr (Some r', P')"
    "pool_inv P'" "pool_ext P P'"
    "den P' r' (Suc k) (QNode (qse (qnw t)) (qsw (qne t)) (qne (qsw t)) (qnw (qse t)))"
    using make_spec[OF assms(1) da db dc dd] by blast
  show ?thesis
    by (rule that[of r' P']) (use c m in \<open>simp_all add: qcenter_def\<close>)
qed

lemma full_alive_eq:
  assumes "full k a" and "full k b"
    and "\<And>x y. 0 \<le> x \<Longrightarrow> x < 2 ^ k \<Longrightarrow> 0 \<le> y \<Longrightarrow> y < 2 ^ k \<Longrightarrow> alive_at a x y = alive_at b x y"
  shows "a = b"
  using assms
proof (induction k arbitrary: a b)
  case 0
  obtain u where a: "a = QLeaf u" using 0(1) by (cases a) auto
  obtain v where b: "b = QLeaf v" using 0(2) by (cases b) auto
  show ?case using 0(3)[of 0 0] a b by simp
next
  case (Suc k)
  obtain a1 a2 a3 a4 where a: "a = QNode a1 a2 a3 a4" using Suc.prems(1) by (cases a) auto
  obtain b1 b2 b3 b4 where b: "b = QNode b1 b2 b3 b4" using Suc.prems(2) by (cases b) auto
  have fa: "full k a1" "full k a2" "full k a3" "full k a4" using Suc.prems(1) a by simp_all
  have fb: "full k b1" "full k b2" "full k b3" "full k b4" using Suc.prems(2) b by simp_all
  have p: "(0 :: int) < 2 ^ k" by simp
  have "a1 = b1"
  proof (rule Suc.IH[OF fa(1) fb(1)])
    fix x y :: int assume xy: "0 \<le> x" "x < 2 ^ k" "0 \<le> y" "y < 2 ^ k"
    show "alive_at a1 x y = alive_at b1 x y"
      using Suc.prems(3)[of x y] xy a b
      by (simp add: alive_at_QNode[OF fa(1)] alive_at_QNode[OF fb(1)])
  qed
  moreover have "a2 = b2"
  proof (rule Suc.IH[OF fa(2) fb(2)])
    fix x y :: int assume xy: "0 \<le> x" "x < 2 ^ k" "0 \<le> y" "y < 2 ^ k"
    show "alive_at a2 x y = alive_at b2 x y"
      using Suc.prems(3)[of "x + 2 ^ k" y] xy a b
      by (simp add: alive_at_QNode[OF fa(1)] alive_at_QNode[OF fb(1)])
  qed
  moreover have "a3 = b3"
  proof (rule Suc.IH[OF fa(3) fb(3)])
    fix x y :: int assume xy: "0 \<le> x" "x < 2 ^ k" "0 \<le> y" "y < 2 ^ k"
    show "alive_at a3 x y = alive_at b3 x y"
      using Suc.prems(3)[of x "y + 2 ^ k"] xy a b
      by (simp add: alive_at_QNode[OF fa(1)] alive_at_QNode[OF fb(1)])
  qed
  moreover have "a4 = b4"
  proof (rule Suc.IH[OF fa(4) fb(4)])
    fix x y :: int assume xy: "0 \<le> x" "x < 2 ^ k" "0 \<le> y" "y < 2 ^ k"
    show "alive_at a4 x y = alive_at b4 x y"
      using Suc.prems(3)[of "x + 2 ^ k" "y + 2 ^ k"] xy a b
      by (simp add: alive_at_QNode[OF fa(1)] alive_at_QNode[OF fb(1)])
  qed
  ultimately show ?case using a b by simp
qed

lemma advanced_unique:
  assumes "advanced k t t1" and "advanced k t t2"
  shows "t1 = t2"
proof (rule full_alive_eq[of "Suc k"])
  show "full (Suc k) t1" "full (Suc k) t2" using assms by (simp_all add: advanced_def)
  fix x y :: int assume "0 \<le> x" "x < 2 ^ Suc k" "0 \<le> y" "y < 2 ^ Suc k"
  then show "alive_at t1 x y = alive_at t2 x y"
    using assms unfolding advanced_def by simp
qed

text \<open>Canonical form: in a well-formed pool a square has one node.\<close>

lemma den_inj:
  assumes "pool_wf P"
  shows "den P i k t \<Longrightarrow> den P j k t \<Longrightarrow> i = j"
proof (induction k arbitrary: i j t)
  case 0
  have leafy: "q = 0 \<or> q = 1" if "den P q 0 u" for q u
  proof (rule ccontr)
    assume "\<not> (q = 0 \<or> q = 1)"
    then have q2: "2 \<le> q" by linarith
    have q: "q < length (arena P)" "level (arena P ! q) = 0" using that by (simp_all add: den_def)
    have "node_ok P q" by (rule wf_node_ok[OF assms q2 q(1)])
    then obtain a b c d where k: "kids P q = Some (a, b, c, d)"
      and l: "level (arena P ! a) = level (arena P ! q) - 1"
      unfolding node_ok_def by blast
    have "a < length (arena P)" using kids_less[OF k] by simp
    then obtain ka where "level (arena P ! a) = int ka" using wf_semantics[OF assms] by blast
    then show False using l q(2) by simp
  qed
  have ti: "tree_of P i = t" and tj: "tree_of P j = t" using 0 by (simp_all add: den_def)
  show ?case
    using leafy[OF 0(1)] leafy[OF 0(2)] ti tj wf_leaf0(4)[OF assms] wf_leaf1(4)[OF assms]
    by auto
next
  case (Suc k)
  obtain a b c d where ki: "kids P i = Some (a, b, c, d)"
    and di: "den P a k (qnw t)" "den P b k (qne t)" "den P c k (qsw t)" "den P d k (qse t)"
    by (rule den_children[OF assms Suc.prems(1)])
  obtain a' b' c' d' where kj: "kids P j = Some (a', b', c', d')"
    and dj: "den P a' k (qnw t)" "den P b' k (qne t)" "den P c' k (qsw t)" "den P d' k (qse t)"
    by (rule den_children[OF assms Suc.prems(2)])
  have e: "a = a'" "b = b'" "c = c'" "d = d'"
    using Suc.IH[OF di(1) dj(1)] Suc.IH[OF di(2) dj(2)] Suc.IH[OF di(3) dj(3)]
      Suc.IH[OF di(4) dj(4)] by simp_all
  have two: "2 \<le> q" if "kids P q = Some (a, b, c, d)" for q
    using that wf_leaf0(1)[OF assms] wf_leaf1(1)[OF assms]
    by (cases "q = 0"; cases "q = 1") auto
  have li: "i < length (arena P)" and lj: "j < length (arena P)"
    using Suc.prems by (simp_all add: den_def)
  have "map_of (canon P) (Some a, Some b, Some c, Some d) = Some (Some i)"
    using wf_node_ok[OF assms two[OF ki] li] ki unfolding node_ok_def by auto
  moreover have "map_of (canon P) (Some a, Some b, Some c, Some d) = Some (Some j)"
    using wf_node_ok[OF assms two[OF kj[folded e]] lj] kj e unfolding node_ok_def by auto
  ultimately show ?case by simp
qed

lemma store_step1_result:
  "p < length (arena P) \<Longrightarrow> store_step1 (Some p) r P = Inr P' \<Longrightarrow>
     step1_result (arena P' ! p) = r"
  by (auto simp: store_step1_def)

lemma store_step1_spec:
  assumes "pool_inv P" and "den P p (Suc (Suc k)) t" and "den P r (Suc k) t'"
    and "advanced k t t'"
  obtains P' where "store_step1 (Some p) (Some r) P = Inr P'" "pool_inv P'" "pool_ext P P'"
proof -
  define P' where "P' = P\<lparr>arena := (arena P)[p := (arena P ! p)\<lparr>step1_result := Some r\<rparr>]\<rparr>"
  have p: "p < length (arena P)" "level (arena P ! p) = int (Suc (Suc k))" "tree_of P p = t"
    using assms(2) by (simp_all add: den_def)
  have r: "r < length (arena P)" "level (arena P ! r) = int (Suc k)" "tree_of P r = t'"
    using assms(3) by (simp_all add: den_def)
  have run: "store_step1 (Some p) (Some r) P = Inr P'"
    using p(1) by (simp add: store_step1_def P'_def)
  have nth: "arena P' ! i = (if i = p then (arena P ! p)\<lparr>step1_result := Some r\<rparr> else arena P ! i)"
    if "i < length (arena P)" for i
    using that by (simp add: P'_def nth_list_update)
  have len: "length (arena P') = length (arena P)" by (simp add: P'_def)
  have sh: "shape (arena P' ! i) = shape (arena P ! i)" if "i < length (arena P)" for i
    using nth[OF that] by (simp add: shape_def)
  have ss: "same_shape P P'"
    using sh len by (simp add: same_shape_def shape_ext_def P'_def)
  have ext: "shape_ext P P'" using ss by (simp add: same_shape_def)
  have wf': "pool_wf P'" using ss assms(1) by (simp add: same_shape_wf pool_inv_def)
  have co': "cache_ok P'"
    by (rule same_shape_cache[OF ss]) (use assms(1) in \<open>simp_all add: pool_inv_def P'_def\<close>)
  have mo: "memo_ok P" using assms(1) by (simp add: pool_inv_def)
  have mo': "memo_ok P'"
    unfolding memo_ok_def
  proof (intro allI impI)
    fix i r0 assume ir: "i < length (arena P') \<and> step1_result (arena P' ! i) = Some r0"
    then have i: "i < length (arena P)" using len by simp
    note fi = shape_ext_shape[OF ext i]
    show "\<exists>k. r0 < length (arena P') \<and> level (arena P' ! i) = int (Suc (Suc k))
          \<and> level (arena P' ! r0) = int (Suc k)
          \<and> advanced k (tree_of P' i) (tree_of P' r0)"
    proof (cases "i = p")
      case True
      then have "r0 = r" using ir nth[OF i] by simp
      then show ?thesis
        apply (intro exI[of _ k])
        using True p r assms(4) fi shape_ext_shape[OF ext r(1)] len same_shape_tree[OF ss]
        by simp
    next
      case False
      then have "step1_result (arena P ! i) = Some r0" using ir nth[OF i] by simp
      then obtain k0 where k0: "r0 < length (arena P)" "level (arena P ! i) = int (Suc (Suc k0))"
        "level (arena P ! r0) = int (Suc k0)" "advanced k0 (tree_of P i) (tree_of P r0)"
        using mo i unfolding memo_ok_def by blast
      show ?thesis
        apply (intro exI[of _ k0])
        using k0 fi shape_ext_shape[OF ext k0(1)] len same_shape_tree[OF ss]
        by simp
    qed
  qed
  have wf: "pool_wf P" using assms(1) by (simp add: pool_inv_def)
  have keep: "step1_result (arena P' ! i) = step1_result (arena P ! i)"
    if i: "i < length (arena P)" and s: "step1_result (arena P ! i) \<noteq> None" for i
  proof (cases "i = p")
    case False
    then show ?thesis using nth[OF i] by simp
  next
    case True
    obtain r0 where r0: "step1_result (arena P ! p) = Some r0" using s True by auto
    obtain k0 where k0: "r0 < length (arena P)" "level (arena P ! p) = int (Suc (Suc k0))"
      "level (arena P ! r0) = int (Suc k0)" "advanced k0 (tree_of P p) (tree_of P r0)"
      using mo p(1) r0 unfolding memo_ok_def by blast
    have kk: "k0 = k" using k0(2) p(2) by simp
    have "tree_of P r0 = t'"
      by (rule advanced_unique[OF _ assms(4)]) (use k0(4) kk p(3) in simp)
    then have "den P r0 (Suc k) t'" using k0(1,3) kk by (simp add: den_def)
    then have "r0 = r" using assms(3) by (rule den_inj[OF wf])
    then show ?thesis using True r0 nth[OF p(1)] by simp
  qed
  have pext: "pool_ext P P'"
    using ext keep by (simp add: pool_ext_def)
  show ?thesis
    by (rule that[OF run]) (use wf' mo' co' pext in \<open>simp_all add: pool_inv_def\<close>)
qed

lemma den_grandchildren:
  assumes "pool_wf P" and "den P p (Suc (Suc k)) t"
  obtains a b c d a1 a2 a3 a4 b1 b2 b3 b4 c1 c2 c3 c4 d1 d2 d3 d4 where
    "kids P p = Some (a, b, c, d)"
    "kids P a = Some (a1, a2, a3, a4)" "kids P b = Some (b1, b2, b3, b4)"
    "kids P c = Some (c1, c2, c3, c4)" "kids P d = Some (d1, d2, d3, d4)"
    "den P a (Suc k) (qnw t)" "den P b (Suc k) (qne t)"
    "den P c (Suc k) (qsw t)" "den P d (Suc k) (qse t)"
    "den P a1 k (qnw (qnw t))" "den P a2 k (qne (qnw t))"
    "den P a3 k (qsw (qnw t))" "den P a4 k (qse (qnw t))"
    "den P b1 k (qnw (qne t))" "den P b2 k (qne (qne t))"
    "den P b3 k (qsw (qne t))" "den P b4 k (qse (qne t))"
    "den P c1 k (qnw (qsw t))" "den P c2 k (qne (qsw t))"
    "den P c3 k (qsw (qsw t))" "den P c4 k (qse (qsw t))"
    "den P d1 k (qnw (qse t))" "den P d2 k (qne (qse t))"
    "den P d3 k (qsw (qse t))" "den P d4 k (qse (qse t))"
proof -
  obtain a b c d where k: "kids P p = Some (a, b, c, d)"
    and d: "den P a (Suc k) (qnw t)" "den P b (Suc k) (qne t)"
      "den P c (Suc k) (qsw t)" "den P d (Suc k) (qse t)"
    using den_children[OF assms] by blast
  obtain a1 a2 a3 a4 where ka: "kids P a = Some (a1, a2, a3, a4)"
    and da: "den P a1 k (qnw (qnw t))" "den P a2 k (qne (qnw t))"
      "den P a3 k (qsw (qnw t))" "den P a4 k (qse (qnw t))"
    using den_children[OF assms(1) d(1)] by blast
  obtain b1 b2 b3 b4 where kb: "kids P b = Some (b1, b2, b3, b4)"
    and db: "den P b1 k (qnw (qne t))" "den P b2 k (qne (qne t))"
      "den P b3 k (qsw (qne t))" "den P b4 k (qse (qne t))"
    using den_children[OF assms(1) d(2)] by blast
  obtain c1 c2 c3 c4 where kc: "kids P c = Some (c1, c2, c3, c4)"
    and dc: "den P c1 k (qnw (qsw t))" "den P c2 k (qne (qsw t))"
      "den P c3 k (qsw (qsw t))" "den P c4 k (qse (qsw t))"
    using den_children[OF assms(1) d(3)] by blast
  obtain d1 d2 d3 d4 where kd: "kids P d = Some (d1, d2, d3, d4)"
    and dd: "den P d1 k (qnw (qse t))" "den P d2 k (qne (qse t))"
      "den P d3 k (qsw (qse t))" "den P d4 k (qse (qse t))"
    using den_children[OF assms(1) d(4)] by blast
  show ?thesis
    by (rule that[OF k ka kb kc kd d da db dc dd])
qed

lemma region0_pop:
  assumes "region 0 t x y g"
  shows "qpop g = (if alive_at t x y then 1 else 0)"
proof -
  have "full 0 g" using assms by (rule region_full)
  then obtain b where g: "g = QLeaf b" by (cases g) auto
  have "alive_at g 0 0 = alive_at t (0 + x) (0 + y)"
    using assms by (rule regionD) simp_all
  then show ?thesis using g by simp
qed

lemma leaf_den:
  assumes "pool_wf P"
  obtains i where "leaf b P = Some i" "den P i 0 (QLeaf b)"
proof (cases b)
  case True
  have "leaf b P = Some 1" using assms True by (simp add: leaf_def pool_wf_def)
  then show ?thesis using that[of 1] den_leaf1[OF assms] True by simp
next
  case False
  have "leaf b P = Some 0" using assms False by (simp add: leaf_def pool_wf_def)
  then show ?thesis using that[of 0] den_leaf0[OF assms] False by simp
qed

lemma grid_4x4_spec:
  assumes "pool_wf P" and "den P p (Suc (Suc 0)) t"
  shows "grid_4x4 (Some p) P =
    Inr [[qpop (qnw (qnw t)), qpop (qsw (qnw t)), qpop (qnw (qsw t)), qpop (qsw (qsw t))],
         [qpop (qne (qnw t)), qpop (qse (qnw t)), qpop (qne (qsw t)), qpop (qse (qsw t))],
         [qpop (qnw (qne t)), qpop (qsw (qne t)), qpop (qnw (qse t)), qpop (qsw (qse t))],
         [qpop (qne (qne t)), qpop (qse (qne t)), qpop (qne (qse t)), qpop (qse (qse t))]]"
proof -
  obtain a b c d a1 a2 a3 a4 b1 b2 b3 b4 c1 c2 c3 c4 d1 d2 d3 d4 where
    k: "kids P p = Some (a, b, c, d)"
    "kids P a = Some (a1, a2, a3, a4)" "kids P b = Some (b1, b2, b3, b4)"
    "kids P c = Some (c1, c2, c3, c4)" "kids P d = Some (d1, d2, d3, d4)"
    and d: "den P a (Suc 0) (qnw t)" "den P b (Suc 0) (qne t)"
    "den P c (Suc 0) (qsw t)" "den P d (Suc 0) (qse t)"
    and g: "den P a1 0 (qnw (qnw t))" "den P a2 0 (qne (qnw t))"
    "den P a3 0 (qsw (qnw t))" "den P a4 0 (qse (qnw t))"
    "den P b1 0 (qnw (qne t))" "den P b2 0 (qne (qne t))"
    "den P b3 0 (qsw (qne t))" "den P b4 0 (qse (qne t))"
    "den P c1 0 (qnw (qsw t))" "den P c2 0 (qne (qsw t))"
    "den P c3 0 (qsw (qsw t))" "den P c4 0 (qse (qsw t))"
    "den P d1 0 (qnw (qse t))" "den P d2 0 (qne (qse t))"
    "den P d3 0 (qsw (qse t))" "den P d4 0 (qse (qse t))"
    by (rule den_grandchildren[OF assms])
  note r = read_kids[OF k(1) pool_ext_refl] read_kids[OF k(2) pool_ext_refl]
    read_kids[OF k(3) pool_ext_refl] read_kids[OF k(4) pool_ext_refl]
    read_kids[OF k(5) pool_ext_refl]
  note pp = g[THEN read_population[OF assms(1)]]
  show ?thesis
    by (simp add: grid_4x4_def field3_def field2_def r pp)
qed

definition leaf_grid :: "qtree \<Rightarrow> int list list" where
  "leaf_grid t = map (\<lambda>x. map (\<lambda>y. if alive_at t x y then 1 else 0) [0, 1, 2, 3]) [0, 1, 2, 3]"

lemma step_4x4_leaves:
  assumes "pool_inv P" and "den P p (Suc (Suc 0)) t"
  obtains r P' where "grid_4x4 (Some p) P = Inr (leaf_grid t)"
    "step_4x4 (Some p) P = Inr (Some r, P')" "pool_inv P'" "pool_ext P P'"
    "den P' r (Suc 0)
       (QNode (QLeaf (life_rule (leaf_grid t) 1 1)) (QLeaf (life_rule (leaf_grid t) 2 1))
              (QLeaf (life_rule (leaf_grid t) 1 2)) (QLeaf (life_rule (leaf_grid t) 2 2)))"
proof -
  have wf: "pool_wf P" using assms(1) by (simp add: pool_inv_def)
  have F: "full (Suc (Suc 0)) t" using assms(2) by (rule den_full[OF wf])
  note rg = region_grandchildren[OF F]
  have pp: "qpop (qnw (qnw t)) = (if alive_at t 0 0 then 1 else 0)"
    "qpop (qsw (qnw t)) = (if alive_at t 0 1 then 1 else 0)"
    "qpop (qnw (qsw t)) = (if alive_at t 0 2 then 1 else 0)"
    "qpop (qsw (qsw t)) = (if alive_at t 0 3 then 1 else 0)"
    "qpop (qne (qnw t)) = (if alive_at t 1 0 then 1 else 0)"
    "qpop (qse (qnw t)) = (if alive_at t 1 1 then 1 else 0)"
    "qpop (qne (qsw t)) = (if alive_at t 1 2 then 1 else 0)"
    "qpop (qse (qsw t)) = (if alive_at t 1 3 then 1 else 0)"
    "qpop (qnw (qne t)) = (if alive_at t 2 0 then 1 else 0)"
    "qpop (qsw (qne t)) = (if alive_at t 2 1 then 1 else 0)"
    "qpop (qnw (qse t)) = (if alive_at t 2 2 then 1 else 0)"
    "qpop (qsw (qse t)) = (if alive_at t 2 3 then 1 else 0)"
    "qpop (qne (qne t)) = (if alive_at t 3 0 then 1 else 0)"
    "qpop (qse (qne t)) = (if alive_at t 3 1 then 1 else 0)"
    "qpop (qne (qse t)) = (if alive_at t 3 2 then 1 else 0)"
    "qpop (qse (qse t)) = (if alive_at t 3 3 then 1 else 0)"
    using rg[THEN region0_pop] by simp_all
  define g where "g = leaf_grid t"
  have grid: "grid_4x4 (Some p) P = Inr g"
    unfolding g_def leaf_grid_def grid_4x4_spec[OF wf assms(2)] pp by simp
  obtain i11 where l11: "leaf (life_rule g 1 1) P = Some i11"
    and d11: "den P i11 0 (QLeaf (life_rule g 1 1))"
    by (rule leaf_den[OF wf])
  obtain i21 where l21: "leaf (life_rule g 2 1) P = Some i21"
    and d21: "den P i21 0 (QLeaf (life_rule g 2 1))"
    by (rule leaf_den[OF wf])
  obtain i12 where l12: "leaf (life_rule g 1 2) P = Some i12"
    and d12: "den P i12 0 (QLeaf (life_rule g 1 2))"
    by (rule leaf_den[OF wf])
  obtain i22 where l22: "leaf (life_rule g 2 2) P = Some i22"
    and d22: "den P i22 0 (QLeaf (life_rule g 2 2))"
    by (rule leaf_den[OF wf])
  obtain r P' where mk: "make (Some i11) (Some i21) (Some i12) (Some i22) P = Inr (Some r, P')"
    and inv': "pool_inv P'" and ext: "pool_ext P P'"
    and dr: "den P' r (Suc 0) (QNode (QLeaf (life_rule g 1 1)) (QLeaf (life_rule g 2 1))
              (QLeaf (life_rule g 1 2)) (QLeaf (life_rule g 2 2)))"
    and kr: "kids P' r = Some (i11, i21, i12, i22)"
    and cr: "empty_cache P' = empty_cache P"
    by (rule make_spec[OF assms(1) d11 d21 d12 d22])
  have st: "step_4x4 (Some p) P = Inr (Some r, P')"
    by (simp add: step_4x4_def grid l11 l21 l12 l22 mk)
  show ?thesis
    by (rule that[OF grid[unfolded g_def] st inv' ext dr[unfolded g_def]])
qed

lemma life_rule_leaf_grid:
  "life_rule (leaf_grid t) 1 1 = life_next (alive_at t) 1 1"
  "life_rule (leaf_grid t) 2 1 = life_next (alive_at t) 2 1"
  "life_rule (leaf_grid t) 1 2 = life_next (alive_at t) 1 2"
  "life_rule (leaf_grid t) 2 2 = life_next (alive_at t) 2 2"
  using life_rule_grid[of "alive_at t", OF refl refl refl refl refl refl refl refl
      refl refl refl refl refl refl refl refl]
  by (simp_all add: leaf_grid_def)

lemma step_4x4_spec:
  assumes "pool_inv P" and "den P p (Suc (Suc 0)) t"
  obtains r P' t' where "step_4x4 (Some p) P = Inr (Some r, P')" "pool_inv P'" "pool_ext P P'"
    "den P' r (Suc 0) t'" "advanced 0 t t'"
proof -
  have wf: "pool_wf P" using assms(1) by (simp add: pool_inv_def)
  have F: "full (Suc (Suc 0)) t" using assms(2) by (rule den_full[OF wf])
  define t' where "t' = QNode (QLeaf (life_next (alive_at t) 1 1)) (QLeaf (life_next (alive_at t) 2 1))
    (QLeaf (life_next (alive_at t) 1 2)) (QLeaf (life_next (alive_at t) 2 2))"
  obtain r P' where gr: "grid_4x4 (Some p) P = Inr (leaf_grid t)"
    and st: "step_4x4 (Some p) P = Inr (Some r, P')" and inv': "pool_inv P'"
    and ext: "pool_ext P P'"
    and dr0: "den P' r (Suc 0)
       (QNode (QLeaf (life_rule (leaf_grid t) 1 1)) (QLeaf (life_rule (leaf_grid t) 2 1))
              (QLeaf (life_rule (leaf_grid t) 1 2)) (QLeaf (life_rule (leaf_grid t) 2 2)))"
    by (rule step_4x4_leaves[OF assms])
  have dr: "den P' r (Suc 0) t'"
    using dr0 unfolding life_rule_leaf_grid t'_def .
  have F': "full (Suc 0) t'" by (simp add: t'_def)
  have al: "alive_at t' x y = life_next (alive_at t) (x + 2 ^ 0) (y + 2 ^ 0)"
    if "0 \<le> x" "x < 2 ^ Suc 0" "0 \<le> y" "y < 2 ^ Suc 0" for x y
  proof -
    have "x = 0 \<or> x = 1" "y = 0 \<or> y = 1" using that by auto
    then show ?thesis
      unfolding t'_def by (auto simp: alive_at_QNode[of 0])
  qed
  have adv: "advanced 0 t t'"
    unfolding advanced_def using F F' al by blast
  show ?thesis by (rule that[OF st inv' ext dr adv])
qed

lemma nine_squares:
  assumes "pool_inv P" and "den P p (Suc (Suc (Suc m))) t"
  obtains a b c d c01 P1 c10 P2 c11 P3 c12 P4 c21 P5 r00 P6 r01 P7 r02 P8 r10 P9 r11 P10 r12 P11 r20 P12 r21 P13 r22 P14 where
    "kids P p = Some (a, b, c, d)"
    "make_of P (field ne (Some a) P) (field nw (Some b) P) (field se (Some a) P) (field sw (Some b) P) = Inr (Some c01, P1)"
    "make_of P1 (field sw (Some a) P1) (field se (Some a) P1) (field nw (Some c) P1) (field ne (Some c) P1) = Inr (Some c10, P2)"
    "make_of P2 (field se (Some a) P2) (field sw (Some b) P2) (field ne (Some c) P2) (field nw (Some d) P2) = Inr (Some c11, P3)"
    "make_of P3 (field sw (Some b) P3) (field se (Some b) P3) (field nw (Some d) P3) (field ne (Some d) P3) = Inr (Some c12, P4)"
    "make_of P4 (field ne (Some c) P4) (field nw (Some d) P4) (field se (Some c) P4) (field sw (Some d) P4) = Inr (Some c21, P5)"
    "center (Some a) P5 = Inr (Some r00, P6)"
    "center (Some c01) P6 = Inr (Some r01, P7)"
    "center (Some b) P7 = Inr (Some r02, P8)"
    "center (Some c10) P8 = Inr (Some r10, P9)"
    "center (Some c11) P9 = Inr (Some r11, P10)"
    "center (Some c12) P10 = Inr (Some r12, P11)"
    "center (Some c) P11 = Inr (Some r20, P12)"
    "center (Some c21) P12 = Inr (Some r21, P13)"
    "center (Some d) P13 = Inr (Some r22, P14)"
    "pool_inv P14"
    "pool_ext P P14"
    "den P14 r00 (Suc m) (qcenter (qnw t))"
    "den P14 r01 (Suc m) (qcenter (qc01 t))"
    "den P14 r02 (Suc m) (qcenter (qne t))"
    "den P14 r10 (Suc m) (qcenter (qc10 t))"
    "den P14 r11 (Suc m) (qcenter (qc11 t))"
    "den P14 r12 (Suc m) (qcenter (qc12 t))"
    "den P14 r20 (Suc m) (qcenter (qsw t))"
    "den P14 r21 (Suc m) (qcenter (qc21 t))"
    "den P14 r22 (Suc m) (qcenter (qse t))"
proof -
  have wf: "pool_wf P" using assms(1) by (simp add: pool_inv_def)
  obtain a b c d a1 a2 a3 a4 b1 b2 b3 b4 c1 c2 c3 c4 d1 d2 d3 d4 where
    k: "kids P p = Some (a, b, c, d)"
    and ka: "kids P a = Some (a1, a2, a3, a4)" and kb: "kids P b = Some (b1, b2, b3, b4)"
    and kc: "kids P c = Some (c1, c2, c3, c4)" and kd: "kids P d = Some (d1, d2, d3, d4)"
    and d_a: "den P a (Suc (Suc m)) (qnw t)"
    and d_b: "den P b (Suc (Suc m)) (qne t)"
    and d_c: "den P c (Suc (Suc m)) (qsw t)"
    and d_d: "den P d (Suc (Suc m)) (qse t)"
    and d_a1: "den P a1 (Suc m) (qnw (qnw t))"
    and d_a2: "den P a2 (Suc m) (qne (qnw t))"
    and d_a3: "den P a3 (Suc m) (qsw (qnw t))"
    and d_a4: "den P a4 (Suc m) (qse (qnw t))"
    and d_b1: "den P b1 (Suc m) (qnw (qne t))"
    and d_b2: "den P b2 (Suc m) (qne (qne t))"
    and d_b3: "den P b3 (Suc m) (qsw (qne t))"
    and d_b4: "den P b4 (Suc m) (qse (qne t))"
    and d_c1: "den P c1 (Suc m) (qnw (qsw t))"
    and d_c2: "den P c2 (Suc m) (qne (qsw t))"
    and d_c3: "den P c3 (Suc m) (qsw (qsw t))"
    and d_c4: "den P c4 (Suc m) (qse (qsw t))"
    and d_d1: "den P d1 (Suc m) (qnw (qse t))"
    and d_d2: "den P d2 (Suc m) (qne (qse t))"
    and d_d3: "den P d3 (Suc m) (qsw (qse t))"
    and d_d4: "den P d4 (Suc m) (qse (qse t))"
    by (rule den_grandchildren[OF wf assms(2)])
  note inv0 = assms(1)
  obtain c01 P1 where m1: "make (Some a2) (Some b1) (Some a4) (Some b3) P = Inr (Some c01, P1)"
    and inv1: "pool_inv P1" and s1: "pool_ext P P1"
    and e_c01: "den P1 c01 (Suc (Suc m)) (QNode (qne (qnw t)) (qnw (qne t)) (qse (qnw t)) (qsw (qne t)))"
    and k_c01: "kids P1 c01 = Some (a2, b1, a4, b3)"
    and c_c01: "empty_cache P1 = empty_cache P"
    by (rule make_spec[OF inv0 d_a2 d_b1 d_a4 d_b3])
  have d_c01: "den P1 c01 (Suc (Suc m)) (qc01 t)" using e_c01 by (simp add: qc01_def)
  have q1: "make_of P (field ne (Some a) P) (field nw (Some b) P) (field se (Some a) P) (field sw (Some b) P) = Inr (Some c01, P1)"
    by (simp add: read_kids[OF ka pool_ext_refl] read_kids[OF kb pool_ext_refl] m1)
  obtain c10 P2 where m2: "make (Some a3) (Some a4) (Some c1) (Some c2) P1 = Inr (Some c10, P2)"
    and inv2: "pool_inv P2" and s2: "pool_ext P1 P2"
    and e_c10: "den P2 c10 (Suc (Suc m)) (QNode (qsw (qnw t)) (qse (qnw t)) (qnw (qsw t)) (qne (qsw t)))"
    and k_c10: "kids P2 c10 = Some (a3, a4, c1, c2)"
    and c_c10: "empty_cache P2 = empty_cache P1"
    by (rule make_spec[OF inv1 den_ext[OF d_a3 s1] den_ext[OF d_a4 s1] den_ext[OF d_c1 s1] den_ext[OF d_c2 s1]])
  have d_c10: "den P2 c10 (Suc (Suc m)) (qc10 t)" using e_c10 by (simp add: qc10_def)
  have q2: "make_of P1 (field sw (Some a) P1) (field se (Some a) P1) (field nw (Some c) P1) (field ne (Some c) P1) = Inr (Some c10, P2)"
    by (simp add: read_kids[OF ka s1] read_kids[OF kc s1] m2)
  have x_0_2: "pool_ext P P2" by (rule pool_ext_trans[OF s1 s2])
  obtain c11 P3 where m3: "make (Some a4) (Some b3) (Some c2) (Some d1) P2 = Inr (Some c11, P3)"
    and inv3: "pool_inv P3" and s3: "pool_ext P2 P3"
    and e_c11: "den P3 c11 (Suc (Suc m)) (QNode (qse (qnw t)) (qsw (qne t)) (qne (qsw t)) (qnw (qse t)))"
    and k_c11: "kids P3 c11 = Some (a4, b3, c2, d1)"
    and c_c11: "empty_cache P3 = empty_cache P2"
    by (rule make_spec[OF inv2 den_ext[OF d_a4 x_0_2] den_ext[OF d_b3 x_0_2] den_ext[OF d_c2 x_0_2] den_ext[OF d_d1 x_0_2]])
  have d_c11: "den P3 c11 (Suc (Suc m)) (qc11 t)" using e_c11 by (simp add: qc11_def)
  have q3: "make_of P2 (field se (Some a) P2) (field sw (Some b) P2) (field ne (Some c) P2) (field nw (Some d) P2) = Inr (Some c11, P3)"
    by (simp add: read_kids[OF ka x_0_2] read_kids[OF kb x_0_2] read_kids[OF kc x_0_2] read_kids[OF kd x_0_2] m3)
  have x_0_3: "pool_ext P P3" by (rule pool_ext_trans[OF x_0_2 s3])
  obtain c12 P4 where m4: "make (Some b3) (Some b4) (Some d1) (Some d2) P3 = Inr (Some c12, P4)"
    and inv4: "pool_inv P4" and s4: "pool_ext P3 P4"
    and e_c12: "den P4 c12 (Suc (Suc m)) (QNode (qsw (qne t)) (qse (qne t)) (qnw (qse t)) (qne (qse t)))"
    and k_c12: "kids P4 c12 = Some (b3, b4, d1, d2)"
    and c_c12: "empty_cache P4 = empty_cache P3"
    by (rule make_spec[OF inv3 den_ext[OF d_b3 x_0_3] den_ext[OF d_b4 x_0_3] den_ext[OF d_d1 x_0_3] den_ext[OF d_d2 x_0_3]])
  have d_c12: "den P4 c12 (Suc (Suc m)) (qc12 t)" using e_c12 by (simp add: qc12_def)
  have q4: "make_of P3 (field sw (Some b) P3) (field se (Some b) P3) (field nw (Some d) P3) (field ne (Some d) P3) = Inr (Some c12, P4)"
    by (simp add: read_kids[OF kb x_0_3] read_kids[OF kd x_0_3] m4)
  have x_0_4: "pool_ext P P4" by (rule pool_ext_trans[OF x_0_3 s4])
  obtain c21 P5 where m5: "make (Some c2) (Some d1) (Some c4) (Some d3) P4 = Inr (Some c21, P5)"
    and inv5: "pool_inv P5" and s5: "pool_ext P4 P5"
    and e_c21: "den P5 c21 (Suc (Suc m)) (QNode (qne (qsw t)) (qnw (qse t)) (qse (qsw t)) (qsw (qse t)))"
    and k_c21: "kids P5 c21 = Some (c2, d1, c4, d3)"
    and c_c21: "empty_cache P5 = empty_cache P4"
    by (rule make_spec[OF inv4 den_ext[OF d_c2 x_0_4] den_ext[OF d_d1 x_0_4] den_ext[OF d_c4 x_0_4] den_ext[OF d_d3 x_0_4]])
  have d_c21: "den P5 c21 (Suc (Suc m)) (qc21 t)" using e_c21 by (simp add: qc21_def)
  have q5: "make_of P4 (field ne (Some c) P4) (field nw (Some d) P4) (field se (Some c) P4) (field sw (Some d) P4) = Inr (Some c21, P5)"
    by (simp add: read_kids[OF kc x_0_4] read_kids[OF kd x_0_4] m5)
  have x_0_5: "pool_ext P P5" by (rule pool_ext_trans[OF x_0_4 s5])
  obtain r00 P6 where q6: "center (Some a) P5 = Inr (Some r00, P6)"
    and inv6: "pool_inv P6" and s6: "pool_ext P5 P6"
    and d_r00: "den P6 r00 (Suc m) (qcenter (qnw t))"
    by (rule center_spec[OF inv5 den_ext[OF d_a x_0_5]])
  have x_1_3: "pool_ext P1 P3" by (rule pool_ext_trans[OF s2 s3])
  have x_1_4: "pool_ext P1 P4" by (rule pool_ext_trans[OF x_1_3 s4])
  have x_1_5: "pool_ext P1 P5" by (rule pool_ext_trans[OF x_1_4 s5])
  have x_1_6: "pool_ext P1 P6" by (rule pool_ext_trans[OF x_1_5 s6])
  obtain r01 P7 where q7: "center (Some c01) P6 = Inr (Some r01, P7)"
    and inv7: "pool_inv P7" and s7: "pool_ext P6 P7"
    and d_r01: "den P7 r01 (Suc m) (qcenter (qc01 t))"
    by (rule center_spec[OF inv6 den_ext[OF d_c01 x_1_6]])
  have x_0_6: "pool_ext P P6" by (rule pool_ext_trans[OF x_0_5 s6])
  have x_0_7: "pool_ext P P7" by (rule pool_ext_trans[OF x_0_6 s7])
  obtain r02 P8 where q8: "center (Some b) P7 = Inr (Some r02, P8)"
    and inv8: "pool_inv P8" and s8: "pool_ext P7 P8"
    and d_r02: "den P8 r02 (Suc m) (qcenter (qne t))"
    by (rule center_spec[OF inv7 den_ext[OF d_b x_0_7]])
  have x_2_4: "pool_ext P2 P4" by (rule pool_ext_trans[OF s3 s4])
  have x_2_5: "pool_ext P2 P5" by (rule pool_ext_trans[OF x_2_4 s5])
  have x_2_6: "pool_ext P2 P6" by (rule pool_ext_trans[OF x_2_5 s6])
  have x_2_7: "pool_ext P2 P7" by (rule pool_ext_trans[OF x_2_6 s7])
  have x_2_8: "pool_ext P2 P8" by (rule pool_ext_trans[OF x_2_7 s8])
  obtain r10 P9 where q9: "center (Some c10) P8 = Inr (Some r10, P9)"
    and inv9: "pool_inv P9" and s9: "pool_ext P8 P9"
    and d_r10: "den P9 r10 (Suc m) (qcenter (qc10 t))"
    by (rule center_spec[OF inv8 den_ext[OF d_c10 x_2_8]])
  have x_3_5: "pool_ext P3 P5" by (rule pool_ext_trans[OF s4 s5])
  have x_3_6: "pool_ext P3 P6" by (rule pool_ext_trans[OF x_3_5 s6])
  have x_3_7: "pool_ext P3 P7" by (rule pool_ext_trans[OF x_3_6 s7])
  have x_3_8: "pool_ext P3 P8" by (rule pool_ext_trans[OF x_3_7 s8])
  have x_3_9: "pool_ext P3 P9" by (rule pool_ext_trans[OF x_3_8 s9])
  obtain r11 P10 where q10: "center (Some c11) P9 = Inr (Some r11, P10)"
    and inv10: "pool_inv P10" and s10: "pool_ext P9 P10"
    and d_r11: "den P10 r11 (Suc m) (qcenter (qc11 t))"
    by (rule center_spec[OF inv9 den_ext[OF d_c11 x_3_9]])
  have x_4_6: "pool_ext P4 P6" by (rule pool_ext_trans[OF s5 s6])
  have x_4_7: "pool_ext P4 P7" by (rule pool_ext_trans[OF x_4_6 s7])
  have x_4_8: "pool_ext P4 P8" by (rule pool_ext_trans[OF x_4_7 s8])
  have x_4_9: "pool_ext P4 P9" by (rule pool_ext_trans[OF x_4_8 s9])
  have x_4_10: "pool_ext P4 P10" by (rule pool_ext_trans[OF x_4_9 s10])
  obtain r12 P11 where q11: "center (Some c12) P10 = Inr (Some r12, P11)"
    and inv11: "pool_inv P11" and s11: "pool_ext P10 P11"
    and d_r12: "den P11 r12 (Suc m) (qcenter (qc12 t))"
    by (rule center_spec[OF inv10 den_ext[OF d_c12 x_4_10]])
  have x_0_8: "pool_ext P P8" by (rule pool_ext_trans[OF x_0_7 s8])
  have x_0_9: "pool_ext P P9" by (rule pool_ext_trans[OF x_0_8 s9])
  have x_0_10: "pool_ext P P10" by (rule pool_ext_trans[OF x_0_9 s10])
  have x_0_11: "pool_ext P P11" by (rule pool_ext_trans[OF x_0_10 s11])
  obtain r20 P12 where q12: "center (Some c) P11 = Inr (Some r20, P12)"
    and inv12: "pool_inv P12" and s12: "pool_ext P11 P12"
    and d_r20: "den P12 r20 (Suc m) (qcenter (qsw t))"
    by (rule center_spec[OF inv11 den_ext[OF d_c x_0_11]])
  have x_5_7: "pool_ext P5 P7" by (rule pool_ext_trans[OF s6 s7])
  have x_5_8: "pool_ext P5 P8" by (rule pool_ext_trans[OF x_5_7 s8])
  have x_5_9: "pool_ext P5 P9" by (rule pool_ext_trans[OF x_5_8 s9])
  have x_5_10: "pool_ext P5 P10" by (rule pool_ext_trans[OF x_5_9 s10])
  have x_5_11: "pool_ext P5 P11" by (rule pool_ext_trans[OF x_5_10 s11])
  have x_5_12: "pool_ext P5 P12" by (rule pool_ext_trans[OF x_5_11 s12])
  obtain r21 P13 where q13: "center (Some c21) P12 = Inr (Some r21, P13)"
    and inv13: "pool_inv P13" and s13: "pool_ext P12 P13"
    and d_r21: "den P13 r21 (Suc m) (qcenter (qc21 t))"
    by (rule center_spec[OF inv12 den_ext[OF d_c21 x_5_12]])
  have x_0_12: "pool_ext P P12" by (rule pool_ext_trans[OF x_0_11 s12])
  have x_0_13: "pool_ext P P13" by (rule pool_ext_trans[OF x_0_12 s13])
  obtain r22 P14 where q14: "center (Some d) P13 = Inr (Some r22, P14)"
    and inv14: "pool_inv P14" and s14: "pool_ext P13 P14"
    and d_r22: "den P14 r22 (Suc m) (qcenter (qse t))"
    by (rule center_spec[OF inv13 den_ext[OF d_d x_0_13]])
  have x_0_14: "pool_ext P P14" by (rule pool_ext_trans[OF x_0_13 s14])
  have x_6_8: "pool_ext P6 P8" by (rule pool_ext_trans[OF s7 s8])
  have x_6_9: "pool_ext P6 P9" by (rule pool_ext_trans[OF x_6_8 s9])
  have x_6_10: "pool_ext P6 P10" by (rule pool_ext_trans[OF x_6_9 s10])
  have x_6_11: "pool_ext P6 P11" by (rule pool_ext_trans[OF x_6_10 s11])
  have x_6_12: "pool_ext P6 P12" by (rule pool_ext_trans[OF x_6_11 s12])
  have x_6_13: "pool_ext P6 P13" by (rule pool_ext_trans[OF x_6_12 s13])
  have x_6_14: "pool_ext P6 P14" by (rule pool_ext_trans[OF x_6_13 s14])
  have x_7_9: "pool_ext P7 P9" by (rule pool_ext_trans[OF s8 s9])
  have x_7_10: "pool_ext P7 P10" by (rule pool_ext_trans[OF x_7_9 s10])
  have x_7_11: "pool_ext P7 P11" by (rule pool_ext_trans[OF x_7_10 s11])
  have x_7_12: "pool_ext P7 P12" by (rule pool_ext_trans[OF x_7_11 s12])
  have x_7_13: "pool_ext P7 P13" by (rule pool_ext_trans[OF x_7_12 s13])
  have x_7_14: "pool_ext P7 P14" by (rule pool_ext_trans[OF x_7_13 s14])
  have x_8_10: "pool_ext P8 P10" by (rule pool_ext_trans[OF s9 s10])
  have x_8_11: "pool_ext P8 P11" by (rule pool_ext_trans[OF x_8_10 s11])
  have x_8_12: "pool_ext P8 P12" by (rule pool_ext_trans[OF x_8_11 s12])
  have x_8_13: "pool_ext P8 P13" by (rule pool_ext_trans[OF x_8_12 s13])
  have x_8_14: "pool_ext P8 P14" by (rule pool_ext_trans[OF x_8_13 s14])
  have x_9_11: "pool_ext P9 P11" by (rule pool_ext_trans[OF s10 s11])
  have x_9_12: "pool_ext P9 P12" by (rule pool_ext_trans[OF x_9_11 s12])
  have x_9_13: "pool_ext P9 P13" by (rule pool_ext_trans[OF x_9_12 s13])
  have x_9_14: "pool_ext P9 P14" by (rule pool_ext_trans[OF x_9_13 s14])
  have x_10_12: "pool_ext P10 P12" by (rule pool_ext_trans[OF s11 s12])
  have x_10_13: "pool_ext P10 P13" by (rule pool_ext_trans[OF x_10_12 s13])
  have x_10_14: "pool_ext P10 P14" by (rule pool_ext_trans[OF x_10_13 s14])
  have x_11_13: "pool_ext P11 P13" by (rule pool_ext_trans[OF s12 s13])
  have x_11_14: "pool_ext P11 P14" by (rule pool_ext_trans[OF x_11_13 s14])
  have x_12_14: "pool_ext P12 P14" by (rule pool_ext_trans[OF s13 s14])
  show ?thesis
    by (rule that[OF k q1 q2 q3 q4 q5 q6 q7 q8 q9 q10 q11 q12 q13 q14 inv14 x_0_14 den_ext[OF d_r00 x_6_14] den_ext[OF d_r01 x_7_14] den_ext[OF d_r02 x_8_14] den_ext[OF d_r10 x_9_14] den_ext[OF d_r11 x_10_14] den_ext[OF d_r12 x_11_14] den_ext[OF d_r20 x_12_14] den_ext[OF d_r21 s14] d_r22])
qed

lemma slow_step_rec:
  assumes IH: "\<And>P p t. pool_inv P \<Longrightarrow> den P p (Suc (Suc m)) t \<Longrightarrow>
      \<exists>r P' t'. slow_step fuel (Some p) P = Inr (Some r, P') \<and> pool_inv P' \<and> pool_ext P P'
        \<and> den P' r (Suc m) t' \<and> advanced m t t'"
    and inv: "pool_inv P" and dp: "den P p (Suc (Suc (Suc m))) t"
    and memo: "step1_result (arena P ! p) = None" and pop: "population (arena P ! p) \<noteq> 0"
  shows "\<exists>r P' t'. slow_step (Suc fuel) (Some p) P = Inr (Some r, P') \<and> pool_inv P' \<and> pool_ext P P'
        \<and> den P' r (Suc (Suc m)) t' \<and> advanced (Suc m) t t'
        \<and> step1_result (arena P' ! p) = Some r"
proof -
  have wf: "pool_wf P" using inv by (simp add: pool_inv_def)
  have lt: "p < length (arena P)" and lv: "level (arena P ! p) = int (Suc (Suc (Suc m)))"
    using dp by (simp_all add: den_def)
  have F: "full (Suc (Suc (Suc m))) t" by (rule den_full[OF wf dp])
  obtain a b c d c01 P1 c10 P2 c11 P3 c12 P4 c21 P5 r00 P6 r01 P7 r02 P8 r10 P9 r11 P10 r12 P11 r20 P12 r21 P13 r22 P14 where
    k: "kids P p = Some (a, b, c, d)"
    and q1: "make_of P (field ne (Some a) P) (field nw (Some b) P) (field se (Some a) P) (field sw (Some b) P) = Inr (Some c01, P1)"
    and q2: "make_of P1 (field sw (Some a) P1) (field se (Some a) P1) (field nw (Some c) P1) (field ne (Some c) P1) = Inr (Some c10, P2)"
    and q3: "make_of P2 (field se (Some a) P2) (field sw (Some b) P2) (field ne (Some c) P2) (field nw (Some d) P2) = Inr (Some c11, P3)"
    and q4: "make_of P3 (field sw (Some b) P3) (field se (Some b) P3) (field nw (Some d) P3) (field ne (Some d) P3) = Inr (Some c12, P4)"
    and q5: "make_of P4 (field ne (Some c) P4) (field nw (Some d) P4) (field se (Some c) P4) (field sw (Some d) P4) = Inr (Some c21, P5)"
    and q6: "center (Some a) P5 = Inr (Some r00, P6)"
    and q7: "center (Some c01) P6 = Inr (Some r01, P7)"
    and q8: "center (Some b) P7 = Inr (Some r02, P8)"
    and q9: "center (Some c10) P8 = Inr (Some r10, P9)"
    and q10: "center (Some c11) P9 = Inr (Some r11, P10)"
    and q11: "center (Some c12) P10 = Inr (Some r12, P11)"
    and q12: "center (Some c) P11 = Inr (Some r20, P12)"
    and q13: "center (Some c21) P12 = Inr (Some r21, P13)"
    and q14: "center (Some d) P13 = Inr (Some r22, P14)"
    and inv14: "pool_inv P14" and x_0_14: "pool_ext P P14"
    and d_r00: "den P14 r00 (Suc m) (qcenter (qnw t))"
    and d_r01: "den P14 r01 (Suc m) (qcenter (qc01 t))"
    and d_r02: "den P14 r02 (Suc m) (qcenter (qne t))"
    and d_r10: "den P14 r10 (Suc m) (qcenter (qc10 t))"
    and d_r11: "den P14 r11 (Suc m) (qcenter (qc11 t))"
    and d_r12: "den P14 r12 (Suc m) (qcenter (qc12 t))"
    and d_r20: "den P14 r20 (Suc m) (qcenter (qsw t))"
    and d_r21: "den P14 r21 (Suc m) (qcenter (qc21 t))"
    and d_r22: "den P14 r22 (Suc m) (qcenter (qse t))"
    by (rule nine_squares[OF inv dp])
  obtain q00 P15 where q15: "make (Some r00) (Some r01) (Some r10) (Some r11) P14 = Inr (Some q00, P15)"
    and inv15: "pool_inv P15" and s15: "pool_ext P14 P15"
    and e_q00: "den P15 q00 (Suc (Suc m)) (QNode (qcenter (qnw t)) (qcenter (qc01 t)) (qcenter (qc10 t)) (qcenter (qc11 t)))"
    and k_q00: "kids P15 q00 = Some (r00, r01, r10, r11)"
    and c_q00: "empty_cache P15 = empty_cache P14"
    by (rule make_spec[OF inv14 d_r00 d_r01 d_r10 d_r11])
  have d_q00: "den P15 q00 (Suc (Suc m)) (quadrant00 t)" using e_q00 by (simp add: quadrant00_def)
  obtain s00 P16 t00 where q16: "slow_step fuel (Some q00) P15 = Inr (Some s00, P16)"
    and inv16: "pool_inv P16" and s16: "pool_ext P15 P16"
    and d_s00: "den P16 s00 (Suc m) t00" and a_s00: "advanced m (quadrant00 t) t00"
    using IH[OF inv15 d_q00] by blast
  have x_14_16: "pool_ext P14 P16" by (rule pool_ext_trans[OF s15 s16])
  obtain q01 P17 where q17: "make (Some r01) (Some r02) (Some r11) (Some r12) P16 = Inr (Some q01, P17)"
    and inv17: "pool_inv P17" and s17: "pool_ext P16 P17"
    and e_q01: "den P17 q01 (Suc (Suc m)) (QNode (qcenter (qc01 t)) (qcenter (qne t)) (qcenter (qc11 t)) (qcenter (qc12 t)))"
    and k_q01: "kids P17 q01 = Some (r01, r02, r11, r12)"
    and c_q01: "empty_cache P17 = empty_cache P16"
    by (rule make_spec[OF inv16 den_ext[OF d_r01 x_14_16] den_ext[OF d_r02 x_14_16] den_ext[OF d_r11 x_14_16] den_ext[OF d_r12 x_14_16]])
  have d_q01: "den P17 q01 (Suc (Suc m)) (quadrant01 t)" using e_q01 by (simp add: quadrant01_def)
  obtain s01 P18 t01 where q18: "slow_step fuel (Some q01) P17 = Inr (Some s01, P18)"
    and inv18: "pool_inv P18" and s18: "pool_ext P17 P18"
    and d_s01: "den P18 s01 (Suc m) t01" and a_s01: "advanced m (quadrant01 t) t01"
    using IH[OF inv17 d_q01] by blast
  have x_14_17: "pool_ext P14 P17" by (rule pool_ext_trans[OF x_14_16 s17])
  have x_14_18: "pool_ext P14 P18" by (rule pool_ext_trans[OF x_14_17 s18])
  obtain q10 P19 where q19: "make (Some r10) (Some r11) (Some r20) (Some r21) P18 = Inr (Some q10, P19)"
    and inv19: "pool_inv P19" and s19: "pool_ext P18 P19"
    and e_q10: "den P19 q10 (Suc (Suc m)) (QNode (qcenter (qc10 t)) (qcenter (qc11 t)) (qcenter (qsw t)) (qcenter (qc21 t)))"
    and k_q10: "kids P19 q10 = Some (r10, r11, r20, r21)"
    and c_q10: "empty_cache P19 = empty_cache P18"
    by (rule make_spec[OF inv18 den_ext[OF d_r10 x_14_18] den_ext[OF d_r11 x_14_18] den_ext[OF d_r20 x_14_18] den_ext[OF d_r21 x_14_18]])
  have d_q10: "den P19 q10 (Suc (Suc m)) (quadrant10 t)" using e_q10 by (simp add: quadrant10_def)
  obtain s10 P20 t10 where q20: "slow_step fuel (Some q10) P19 = Inr (Some s10, P20)"
    and inv20: "pool_inv P20" and s20: "pool_ext P19 P20"
    and d_s10: "den P20 s10 (Suc m) t10" and a_s10: "advanced m (quadrant10 t) t10"
    using IH[OF inv19 d_q10] by blast
  have x_14_19: "pool_ext P14 P19" by (rule pool_ext_trans[OF x_14_18 s19])
  have x_14_20: "pool_ext P14 P20" by (rule pool_ext_trans[OF x_14_19 s20])
  obtain q11 P21 where q21: "make (Some r11) (Some r12) (Some r21) (Some r22) P20 = Inr (Some q11, P21)"
    and inv21: "pool_inv P21" and s21: "pool_ext P20 P21"
    and e_q11: "den P21 q11 (Suc (Suc m)) (QNode (qcenter (qc11 t)) (qcenter (qc12 t)) (qcenter (qc21 t)) (qcenter (qse t)))"
    and k_q11: "kids P21 q11 = Some (r11, r12, r21, r22)"
    and c_q11: "empty_cache P21 = empty_cache P20"
    by (rule make_spec[OF inv20 den_ext[OF d_r11 x_14_20] den_ext[OF d_r12 x_14_20] den_ext[OF d_r21 x_14_20] den_ext[OF d_r22 x_14_20]])
  have d_q11: "den P21 q11 (Suc (Suc m)) (quadrant11 t)" using e_q11 by (simp add: quadrant11_def)
  obtain s11 P22 t11 where q22: "slow_step fuel (Some q11) P21 = Inr (Some s11, P22)"
    and inv22: "pool_inv P22" and s22: "pool_ext P21 P22"
    and d_s11: "den P22 s11 (Suc m) t11" and a_s11: "advanced m (quadrant11 t) t11"
    using IH[OF inv21 d_q11] by blast
  have x_16_18: "pool_ext P16 P18" by (rule pool_ext_trans[OF s17 s18])
  have x_16_19: "pool_ext P16 P19" by (rule pool_ext_trans[OF x_16_18 s19])
  have x_16_20: "pool_ext P16 P20" by (rule pool_ext_trans[OF x_16_19 s20])
  have x_16_21: "pool_ext P16 P21" by (rule pool_ext_trans[OF x_16_20 s21])
  have x_16_22: "pool_ext P16 P22" by (rule pool_ext_trans[OF x_16_21 s22])
  have x_18_20: "pool_ext P18 P20" by (rule pool_ext_trans[OF s19 s20])
  have x_18_21: "pool_ext P18 P21" by (rule pool_ext_trans[OF x_18_20 s21])
  have x_18_22: "pool_ext P18 P22" by (rule pool_ext_trans[OF x_18_21 s22])
  have x_20_22: "pool_ext P20 P22" by (rule pool_ext_trans[OF s21 s22])
  obtain r P23 where q23: "make (Some s00) (Some s01) (Some s10) (Some s11) P22 = Inr (Some r, P23)"
    and inv23: "pool_inv P23" and s23: "pool_ext P22 P23"
    and d_r: "den P23 r (Suc (Suc m)) (QNode t00 t01 t10 t11)"
    and k_r: "kids P23 r = Some (s00, s01, s10, s11)"
    and c_r: "empty_cache P23 = empty_cache P22"
    by (rule make_spec[OF inv22 den_ext[OF d_s00 x_16_22] den_ext[OF d_s01 x_18_22] den_ext[OF d_s10 x_20_22] d_s11])
  have adv: "advanced (Suc m) t (QNode t00 t01 t10 t11)"
    by (rule advanced_assemble[OF F a_s00 a_s01 a_s10 a_s11])
  have x_0_15: "pool_ext P P15" by (rule pool_ext_trans[OF x_0_14 s15])
  have x_0_16: "pool_ext P P16" by (rule pool_ext_trans[OF x_0_15 s16])
  have x_0_17: "pool_ext P P17" by (rule pool_ext_trans[OF x_0_16 s17])
  have x_0_18: "pool_ext P P18" by (rule pool_ext_trans[OF x_0_17 s18])
  have x_0_19: "pool_ext P P19" by (rule pool_ext_trans[OF x_0_18 s19])
  have x_0_20: "pool_ext P P20" by (rule pool_ext_trans[OF x_0_19 s20])
  have x_0_21: "pool_ext P P21" by (rule pool_ext_trans[OF x_0_20 s21])
  have x_0_22: "pool_ext P P22" by (rule pool_ext_trans[OF x_0_21 s22])
  have x_0_23: "pool_ext P P23" by (rule pool_ext_trans[OF x_0_22 s23])
  obtain P24 where q24: "store_step1 (Some p) (Some r) P23 = Inr P24"
    and inv24: "pool_inv P24" and s24: "pool_ext P23 P24"
    by (rule store_step1_spec[OF inv23 den_ext[OF dp x_0_23] d_r adv])
  have stored: "step1_result (arena P24 ! p) = Some r"
    by (rule store_step1_result[OF _ q24]) (use den_ext[OF dp x_0_23] in \<open>simp add: den_def\<close>)
  have x_0_24: "pool_ext P P24" by (rule pool_ext_trans[OF x_0_23 s24])
  have dr: "deref P (Some p) = Inr (arena P ! p)" by (rule deref_Some[OF lt])
  have l2: "level (arena P ! p) \<noteq> 2" using lv by simp
  note kf = kids_fields[OF k]
  have run: "slow_step (Suc fuel) (Some p) P = Inr (Some r, P24)"
    by (simp add: dr memo pop l2 kf Let_def q1 q2 q3 q4 q5 q6 q7 q8 q9 q10 q11 q12 q13 q14 q15 q16 q17 q18 q19 q20 q21 q22 q23 q24 del: make_of_Inr)
  show ?thesis
    using run inv24 x_0_24 den_ext[OF d_r s24] adv stored by blast
qed

lemma slow_step_spec:
  "pool_inv P \<Longrightarrow> den P p (Suc (Suc k)) t \<Longrightarrow> k < fuel \<Longrightarrow>
     \<exists>r P' t'. slow_step fuel (Some p) P = Inr (Some r, P') \<and> pool_inv P' \<and> pool_ext P P'
        \<and> den P' r (Suc k) t' \<and> advanced k t t' \<and> step1_result (arena P' ! p) = Some r"
proof (induction fuel arbitrary: P p k t)
  case 0
  then show ?case by simp
next
  case (Suc fuel)
  note inv = Suc.prems(1) and dp = Suc.prems(2)
  have wf: "pool_wf P" and mo: "memo_ok P" using inv by (simp_all add: pool_inv_def)
  have lt: "p < length (arena P)" and lv: "level (arena P ! p) = int (Suc (Suc k))"
    and tr: "tree_of P p = t"
    using dp by (simp_all add: den_def)
  have F: "full (Suc (Suc k)) t" by (rule den_full[OF wf dp])
  have dr: "deref P (Some p) = Inr (arena P ! p)" by (rule deref_Some[OF lt])
  show ?case
  proof (cases "step1_result (arena P ! p)")
    case (Some r)
    obtain k0 where k0: "r < length (arena P)" "level (arena P ! p) = int (Suc (Suc k0))"
      "level (arena P ! r) = int (Suc k0)" "advanced k0 (tree_of P p) (tree_of P r)"
      using mo lt Some unfolding memo_ok_def by blast
    have kk: "k0 = k" using k0(2) lv by simp
    have run: "slow_step (Suc fuel) (Some p) P = Inr (Some r, P)"
      by (simp add: dr Some)
    have "den P r (Suc k) (tree_of P r)" using k0(1,3) kk by (simp add: den_def)
    moreover have "advanced k t (tree_of P r)" using k0(4) kk tr by simp
    ultimately show ?thesis using run inv pool_ext_refl[of P] Some by blast
  next
    case None
    show ?thesis
    proof (cases "population (arena P ! p) = 0")
      case True
      have z: "qpop t = 0" using den_pop[OF wf dp] True by simp
      have l1: "level (arena P ! p) - 1 = int (Suc k)" using lv by simp
      obtain r P1 te where en: "empty_node (int (Suc k)) P = Inr (Some r, P1)"
        and inv1: "pool_inv P1" and s1: "pool_ext P P1" and d_r: "den P1 r (Suc k) te"
        and ze: "qpop te = 0"
        using empty_node_spec[OF inv, of "Suc k"] by blast
      have wf1: "pool_wf P1" using inv1 by (simp add: pool_inv_def)
      have adv: "advanced k t te"
        by (rule advanced_dead[OF F z den_full[OF wf1 d_r] ze])
      obtain P2 where st: "store_step1 (Some p) (Some r) P1 = Inr P2"
        and inv2: "pool_inv P2" and s2: "pool_ext P1 P2"
        by (rule store_step1_spec[OF inv1 den_ext[OF dp s1] d_r adv])
      have stored: "step1_result (arena P2 ! p) = Some r"
        by (rule store_step1_result[OF _ st]) (use den_ext[OF dp s1] in \<open>simp add: den_def\<close>)
      have run: "slow_step (Suc fuel) (Some p) P = Inr (Some r, P2)"
        by (simp add: dr None True l1 en st del: of_nat_Suc)
      show ?thesis
        using run inv2 pool_ext_trans[OF s1 s2] den_ext[OF d_r s2] adv stored by blast
    next
      case False
      show ?thesis
      proof (cases k)
        case 0
        have l2: "level (arena P ! p) = 2" using lv 0 by simp
        obtain r P1 t' where en: "step_4x4 (Some p) P = Inr (Some r, P1)"
          and inv1: "pool_inv P1" and s1: "pool_ext P P1" and d_r: "den P1 r (Suc 0) t'"
          and adv: "advanced 0 t t'"
          by (rule step_4x4_spec[OF inv dp[unfolded 0]])
        obtain P2 where st: "store_step1 (Some p) (Some r) P1 = Inr P2"
          and inv2: "pool_inv P2" and s2: "pool_ext P1 P2"
          by (rule store_step1_spec[OF inv1 den_ext[OF dp[unfolded 0] s1] d_r adv])
        have stored: "step1_result (arena P2 ! p) = Some r"
          by (rule store_step1_result[OF _ st]) (use den_ext[OF dp s1] in \<open>simp add: den_def\<close>)
        have run: "slow_step (Suc fuel) (Some p) P = Inr (Some r, P2)"
          by (simp add: dr None False l2 en st)
        show ?thesis
          using run inv2 pool_ext_trans[OF s1 s2] den_ext[OF d_r s2] adv stored 0 by blast
      next
        case (Suc m)
        have mf: "m < fuel" using Suc.prems(3) Suc by simp
        have IH: "\<exists>r P' t'. slow_step fuel (Some p) P = Inr (Some r, P') \<and> pool_inv P' \<and> pool_ext P P'
            \<and> den P' r (Suc m) t' \<and> advanced m t t'"
          if "pool_inv P" "den P p (Suc (Suc m)) t" for P p t
          using Suc.IH[OF that mf] by blast
        show ?thesis
          unfolding Suc
          by (rule slow_step_rec[OF IH inv dp[unfolded Suc] None False])
      qed
    qed
  qed
qed

text \<open>
  \<^verbatim>\<open>build_recursive\<close> changes the pool through \<^verbatim>\<open>make\<close> and \<^verbatim>\<open>empty_node\<close> only:
  when it returns, the invariant still holds and the result is a node of the level asked
  for.
\<close>

lemma bindE_InrE:
  assumes "bindE m f = Inr v"
  obtains u where "m = Inr u" "f u = Inr v"
  using assms by (cases m) simp_all

lemma make_inv:
  assumes "pool_inv P" and "den P a k ta" "den P b k tb" "den P c k tc" "den P d k td"
    and "make (Some a) (Some b) (Some c) (Some d) P = Inr (r, P')"
  shows "pool_inv P' \<and> pool_ext P P' \<and> (\<exists>i. r = Some i \<and> den P' i (Suc k) (QNode ta tb tc td))"
proof -
  obtain r0 P0 where "make (Some a) (Some b) (Some c) (Some d) P = Inr (Some r0, P0)"
    "pool_inv P0" "pool_ext P P0" "den P0 r0 (Suc k) (QNode ta tb tc td)"
    "kids P0 r0 = Some (a, b, c, d)" "empty_cache P0 = empty_cache P"
    by (rule make_spec[OF assms(1-5)])
  then show ?thesis using assms(6) by auto
qed

lemma empty_node_inv:
  assumes "pool_inv P" and "empty_node (int l) P = Inr (r, P')"
  shows "pool_inv P' \<and> pool_ext P P' \<and> (\<exists>i t. r = Some i \<and> den P' i l t \<and> qpop t = 0)"
  using empty_node_spec[OF assms(1), of l] assms(2) by auto

lemma build_recursive_0:
  "build_recursive sc x y (int 0) P =
    bindE (shl1 (int 0)) (\<lambda>sz.
    bindE (has_cell_in sc x y sz) (\<lambda>occupied.
      if \<not> occupied then empty_node (int 0) P
      else Inr (leaf (contains sc x y) P, P)))"
  by (subst build_recursive.simps) (simp cong: if_cong)

lemma build_recursive_Suc:
  "build_recursive sc x y (int (Suc l)) P =
    bindE (shl1 (int (Suc l))) (\<lambda>sz.
    bindE (has_cell_in sc x y sz) (\<lambda>occupied.
      if \<not> occupied then empty_node (int (Suc l)) P
      else
        let half = signed_drop_bit 1 sz in
        bindE (build_recursive sc x y (int l) P) (\<lambda>(a, P).
        bindE (add64 x half) (\<lambda>xh.
        bindE (build_recursive sc xh y (int l) P) (\<lambda>(b, P).
        bindE (add64 y half) (\<lambda>yh.
        bindE (build_recursive sc x yh (int l) P) (\<lambda>(c, P).
        bindE (build_recursive sc xh yh (int l) P) (\<lambda>(d, P).
          make a b c d P))))))))"
proof -
  have l1: "int (Suc l) - 1 = int l" by simp
  have l0: "(int (Suc l) = 0) = False" by simp
  show ?thesis
    by (subst build_recursive.simps) (simp only: l1 l0 if_False)
qed

lemma build_recursive_inv:
  "pool_inv P \<Longrightarrow> build_recursive sc x y (int l) P = Inr (r, P') \<Longrightarrow>
     pool_inv P' \<and> pool_ext P P' \<and> (\<exists>i t. r = Some i \<and> den P' i l t)"
proof (induction l arbitrary: x y P r P')
  case 0
  have wf: "pool_wf P" using 0(1) by (simp add: pool_inv_def)
  from 0(2)[unfolded build_recursive_0] obtain sz where "shl1 (int 0) = Inr sz"
    and r1: "bindE (has_cell_in sc x y sz) (\<lambda>occupied.
      if \<not> occupied then empty_node (int 0) P
      else Inr (leaf (contains sc x y) P, P)) = Inr (r, P')"
    by (rule bindE_InrE)
  from r1 obtain occupied where "has_cell_in sc x y sz = Inr occupied" and
    r2: "(if \<not> occupied then empty_node (int 0) P
      else Inr (leaf (contains sc x y) P, P)) = Inr (r, P')"
    by (rule bindE_InrE)
  show ?case
  proof (cases occupied)
    case False
    then have "empty_node (int 0) P = Inr (r, P')" using r2 by simp
    then show ?thesis using empty_node_inv[OF 0(1)] by blast
  next
    case True
    then have e: "r = leaf (contains sc x y) P" "P' = P" using r2 by auto
    obtain i where "leaf (contains sc x y) P = Some i" "den P i 0 (QLeaf (contains sc x y))"
      by (rule leaf_den[OF wf])
    then show ?thesis using e 0(1) pool_ext_refl[of P] by auto
  qed
next
  case (Suc l)
  from Suc.prems(2)[unfolded build_recursive_Suc] obtain sz where "shl1 (int (Suc l)) = Inr sz"
    and r1: "bindE (has_cell_in sc x y sz) (\<lambda>occupied.
      if \<not> occupied then empty_node (int (Suc l)) P
      else
        let half = signed_drop_bit 1 sz in
        bindE (build_recursive sc x y (int l) P) (\<lambda>(a, P).
        bindE (add64 x half) (\<lambda>xh.
        bindE (build_recursive sc xh y (int l) P) (\<lambda>(b, P).
        bindE (add64 y half) (\<lambda>yh.
        bindE (build_recursive sc x yh (int l) P) (\<lambda>(c, P).
        bindE (build_recursive sc xh yh (int l) P) (\<lambda>(d, P).
          make a b c d P))))))) = Inr (r, P')"
    by (rule bindE_InrE)
  from r1 obtain occupied where "has_cell_in sc x y sz = Inr occupied" and
    r2: "(if \<not> occupied then empty_node (int (Suc l)) P
      else
        let half = signed_drop_bit 1 sz in
        bindE (build_recursive sc x y (int l) P) (\<lambda>(a, P).
        bindE (add64 x half) (\<lambda>xh.
        bindE (build_recursive sc xh y (int l) P) (\<lambda>(b, P).
        bindE (add64 y half) (\<lambda>yh.
        bindE (build_recursive sc x yh (int l) P) (\<lambda>(c, P).
        bindE (build_recursive sc xh yh (int l) P) (\<lambda>(d, P).
          make a b c d P))))))) = Inr (r, P')"
    by (rule bindE_InrE)
  show ?case
  proof (cases occupied)
    case False
    then have "empty_node (int (Suc l)) P = Inr (r, P')" using r2 by simp
    then show ?thesis using empty_node_inv[OF Suc.prems(1)] by blast
  next
    case True
    from r2 True obtain a P1 xh b P2 yh c P3 d P4 where
      b1: "build_recursive sc x y (int l) P = Inr (a, P1)"
      and b2: "build_recursive sc xh y (int l) P1 = Inr (b, P2)"
      and b3: "build_recursive sc x yh (int l) P2 = Inr (c, P3)"
      and b4: "build_recursive sc xh yh (int l) P3 = Inr (d, P4)"
      and mk: "make a b c d P4 = Inr (r, P')"
      by (auto elim!: bindE_InrE simp: Let_def simp del: of_nat_Suc)
    obtain ia ta where i1: "pool_inv P1" and s1: "pool_ext P P1" and a: "a = Some ia"
      and da: "den P1 ia l ta"
      using Suc.IH[OF Suc.prems(1) b1] by blast
    obtain ib tb where i2: "pool_inv P2" and s2: "pool_ext P1 P2" and b: "b = Some ib"
      and db: "den P2 ib l tb"
      using Suc.IH[OF i1 b2] by blast
    obtain ic tc where i3: "pool_inv P3" and s3: "pool_ext P2 P3" and c: "c = Some ic"
      and dc: "den P3 ic l tc"
      using Suc.IH[OF i2 b3] by blast
    obtain id td where i4: "pool_inv P4" and s4: "pool_ext P3 P4" and d: "d = Some id"
      and dd: "den P4 id l td"
      using Suc.IH[OF i3 b4] by blast
    have s24: "pool_ext P2 P4" by (rule pool_ext_trans[OF s3 s4])
    have s14: "pool_ext P1 P4" by (rule pool_ext_trans[OF s2 s24])
    note m = make_inv[OF i4 den_ext[OF da s14] den_ext[OF db s24] den_ext[OF dc s4] dd
        mk[unfolded a b c d]]
    show ?thesis
      using m pool_ext_trans[OF pool_ext_trans[OF s1 s14]] by blast
  qed
qed

section \<open>One generation of a square, and canonical nodes\<close>
text \<open>
  An example: the \<open>4 \<times> 4\<close> square with the cells \<open>(0,1)\<close>, \<open>(1,1)\<close>, \<open>(2,1)\<close> alive, made
  in a cleared pool.
\<close>

definition example_square :: "error + (ptr \<times> NodePool)" where
  "example_square =
    bindE (make (Some 0) (Some 0) (Some 1) (Some 1) NodePool_clear) (\<lambda>(a, P).
    bindE (make (Some 0) (Some 0) (Some 1) (Some 0) P) (\<lambda>(b, P).
    bindE (make (Some 0) (Some 0) (Some 0) (Some 0) P) (\<lambda>(c, P).
      make a b c c P)))"

definition example_pool :: NodePool where
  "example_pool = (case example_square of Inr (r, P) \<Rightarrow> P | Inl e \<Rightarrow> NodePool_clear)"

lemma kids_two:
  assumes "pool_wf P" and "kids P q = Some (a, b, c, d)"
  shows "2 \<le> q"
  using assms(2) wf_leaf0(1)[OF assms(1)] wf_leaf1(1)[OF assms(1)]
  by (cases "q = 0"; cases "q = 1") auto

lemma level_two:
  assumes "pool_wf P" and "i < length (arena P)" and "0 < level (arena P ! i)"
  shows "2 \<le> i"
  using assms(3) wf_leaf0(2)[OF assms(1)] wf_leaf1(2)[OF assms(1)]
  by (cases "i = 0"; cases "i = 1") auto

lemma make_again:
  assumes "pool_wf P" and "kids P r = Some (a, b, c, d)"
  shows "make (Some a) (Some b) (Some c) (Some d) P = Inr (Some r, P)"
proof -
  have r: "2 \<le> r" "r < length (arena P)"
    using kids_two[OF assms] kids_less[OF assms(2)] by simp_all
  have lt: "a < length (arena P)" "b < length (arena P)" "c < length (arena P)"
    "d < length (arena P)" using kids_less[OF assms(2)] by simp_all
  have "node_ok P r" by (rule wf_node_ok[OF assms(1) r])
  then have l: "level (arena P ! b) = level (arena P ! a)"
    "level (arena P ! c) = level (arena P ! a)" "level (arena P ! d) = level (arena P ! a)"
    and c: "map_of (canon P) (Some a, Some b, Some c, Some d) = Some (Some r)"
    using assms(2) unfolding node_ok_def by auto
  show ?thesis
    unfolding make_unfold[OF lt l] c by simp
qed

lemma node_population:
  assumes "pool_wf P" and "kids P r = Some (a, b, c, d)"
  shows "population (arena P ! r) = population (arena P ! a) + population (arena P ! b)
           + population (arena P ! c) + population (arena P ! d)"
proof -
  have r: "2 \<le> r" "r < length (arena P)"
    using kids_two[OF assms] kids_less[OF assms(2)] by simp_all
  have "node_ok P r" by (rule wf_node_ok[OF assms(1) r])
  then show ?thesis using assms(2) unfolding node_ok_def by auto
qed

lemma den_self:
  assumes "pool_wf P" and "i < length (arena P)"
  obtains k where "level (arena P ! i) = int k" "den P i k (tree_of P i)"
  using wf_semantics[OF assms] assms(2) unfolding den_def by blast

lemma make_canonical:
  assumes "pool_inv P"
    and "a < length (arena P)" "b < length (arena P)" "c < length (arena P)" "d < length (arena P)"
    and "level (arena P ! b) = level (arena P ! a)" "level (arena P ! c) = level (arena P ! a)"
      "level (arena P ! d) = level (arena P ! a)"
  shows "\<exists>r P'. make (Some a) (Some b) (Some c) (Some d) P = Inr (Some r, P')
      \<and> pool_inv P' \<and> pool_ext P P' \<and> r < length (arena P')
      \<and> level (arena P' ! r) = level (arena P ! a) + 1
      \<and> nw (arena P' ! r) = Some a \<and> ne (arena P' ! r) = Some b
      \<and> sw (arena P' ! r) = Some c \<and> se (arena P' ! r) = Some d
      \<and> population (arena P' ! r) = population (arena P' ! a) + population (arena P' ! b)
           + population (arena P' ! c) + population (arena P' ! d)
      \<and> (\<forall>P''. pool_inv P'' \<and> pool_ext P' P'' \<longrightarrow>
            make (Some a) (Some b) (Some c) (Some d) P'' = Inr (Some r, P''))"
proof -
  have wf: "pool_wf P" using assms(1) by (simp add: pool_inv_def)
  obtain k where k: "level (arena P ! a) = int k" and da: "den P a k (tree_of P a)"
    by (rule den_self[OF wf assms(2)])
  have db: "den P b k (tree_of P b)" and dc: "den P c k (tree_of P c)"
    and dd: "den P d k (tree_of P d)"
    using assms(3-8) k by (simp_all add: den_def)
  obtain r P' where mk: "make (Some a) (Some b) (Some c) (Some d) P = Inr (Some r, P')"
    and inv': "pool_inv P'" and ext: "pool_ext P P'"
    and dr: "den P' r (Suc k) (QNode (tree_of P a) (tree_of P b) (tree_of P c) (tree_of P d))"
    and kr: "kids P' r = Some (a, b, c, d)"
    and cr: "empty_cache P' = empty_cache P"
    by (rule make_spec[OF assms(1) da db dc dd])
  have wf': "pool_wf P'" using inv' by (simp add: pool_inv_def)
  have r: "r < length (arena P')" "level (arena P' ! r) = level (arena P ! a) + 1"
    using dr k by (simp_all add: den_def)
  note f = kids_fields[OF kr]
  note pop = node_population[OF wf' kr]
  have again: "make (Some a) (Some b) (Some c) (Some d) P'' = Inr (Some r, P'')"
    if "pool_inv P''" "pool_ext P' P''" for P''
  proof -
    have wf'': "pool_wf P''" using that(1) by (simp add: pool_inv_def)
    have "kids P'' r = Some (a, b, c, d)" using kids_ext[OF that(2) r(1)] kr by simp
    then show ?thesis by (rule make_again[OF wf''])
  qed
  show ?thesis
    using mk inv' ext r f pop again by blast
qed

lemma key_inj:
  assumes "pool_wf P" and "i < length (arena P)" and "j < length (arena P)"
    and "0 < level (arena P ! i)" and "level (arena P ! j) = level (arena P ! i)"
    and "nw (arena P ! j) = nw (arena P ! i)" "ne (arena P ! j) = ne (arena P ! i)"
      "sw (arena P ! j) = sw (arena P ! i)" "se (arena P ! j) = se (arena P ! i)"
  shows "i = j"
proof -
  have i2: "2 \<le> i" by (rule level_two[OF assms(1,2,4)])
  have j2: "2 \<le> j" by (rule level_two[OF assms(1,3)]) (use assms(4,5) in simp)
  obtain a b c d where ki: "kids P i = Some (a, b, c, d)"
    and ci: "map_of (canon P) (Some a, Some b, Some c, Some d) = Some (Some i)"
    using wf_node_ok[OF assms(1) i2 assms(2)] unfolding node_ok_def by blast
  obtain a' b' c' d' where kj: "kids P j = Some (a', b', c', d')"
    and cj: "map_of (canon P) (Some a', Some b', Some c', Some d') = Some (Some j)"
    using wf_node_ok[OF assms(1) j2 assms(3)] unfolding node_ok_def by blast
  have "a' = a" "b' = b" "c' = c" "d' = d"
    using kids_fields[OF ki] kids_fields[OF kj] assms(6-9) by simp_all
  then show ?thesis using ci cj by simp
qed

lemma tree_inj:
  assumes "pool_wf P" and "i < length (arena P)" and "j < length (arena P)"
    and "level (arena P ! j) = level (arena P ! i)" and "tree_of P j = tree_of P i"
  shows "i = j"
proof -
  obtain k where k: "level (arena P ! i) = int k" and di: "den P i k (tree_of P i)"
    by (rule den_self[OF assms(1,2)])
  have dj: "den P j k (tree_of P i)" using assms(3-5) k by (simp add: den_def)
  show ?thesis by (rule den_inj[OF assms(1) di dj])
qed

lemma composite_population:
  assumes "pool_wf P" and "i < length (arena P)" and "0 < level (arena P ! i)"
  shows "\<exists>a b c d. nw (arena P ! i) = Some a \<and> ne (arena P ! i) = Some b
      \<and> sw (arena P ! i) = Some c \<and> se (arena P ! i) = Some d
      \<and> population (arena P ! i) = population (arena P ! a) + population (arena P ! b)
           + population (arena P ! c) + population (arena P ! d)"
proof -
  have i2: "2 \<le> i" by (rule level_two[OF assms])
  obtain a b c d where ki: "kids P i = Some (a, b, c, d)"
    using wf_node_ok[OF assms(1) i2 assms(2)] unfolding node_ok_def by blast
  show ?thesis
    using kids_fields[OF ki] node_population[OF assms(1) ki] by blast
qed

lemma slow_step_memo:
  assumes "pool_inv P" and "p < length (arena P)" and "level (arena P ! p) = int k + 2"
    and "k < fuel"
  shows "\<exists>r P'. slow_step fuel (Some p) P = Inr (Some r, P') \<and> pool_inv P' \<and> pool_ext P P'
      \<and> step1_result (arena P' ! p) = Some r
      \<and> (\<forall>P'' q fuel'. pool_inv P'' \<and> pool_ext P' P'' \<and> q < length (arena P'')
            \<and> level (arena P'' ! q) = int k + 2 \<and> tree_of P'' q = tree_of P p \<longrightarrow>
            q = p \<and> slow_step (Suc fuel') (Some q) P'' = Inr (Some r, P''))"
proof -
  have dp: "den P p (Suc (Suc k)) (tree_of P p)" using assms(2,3) by (simp add: den_def)
  obtain r P' t' where run: "slow_step fuel (Some p) P = Inr (Some r, P')"
    and inv': "pool_inv P'" and ext: "pool_ext P P'"
    and st: "step1_result (arena P' ! p) = Some r"
    using slow_step_spec[OF assms(1) dp assms(4)] by blast
  have later: "q = p \<and> slow_step (Suc fuel') (Some q) P'' = Inr (Some r, P'')"
    if h: "pool_inv P''" "pool_ext P' P''" "q < length (arena P'')"
      "level (arena P'' ! q) = int k + 2" "tree_of P'' q = tree_of P p" for P'' q fuel'
  proof -
    have wf'': "pool_wf P''" using h(1) by (simp add: pool_inv_def)
    have e: "pool_ext P P''" by (rule pool_ext_trans[OF ext h(2)])
    have d1: "den P'' p (Suc (Suc k)) (tree_of P p)" by (rule den_ext[OF dp e])
    have d2: "den P'' q (Suc (Suc k)) (tree_of P p)" using h(3-5) by (simp add: den_def)
    have qp: "q = p" by (rule den_inj[OF wf'' d2 d1])
    have lp: "p < length (arena P')" by (rule pool_ext_length[OF ext assms(2)])
    have m: "step1_result (arena P'' ! p) = Some r" by (rule pool_ext_memo[OF h(2) lp st])
    have "deref P'' (Some p) = Inr (arena P'' ! p)"
      by (rule deref_Some[OF pool_ext_length[OF h(2) lp]])
    then show ?thesis using qp m by simp
  qed
  show ?thesis using run inv' ext st later by blast
qed

lemma pool_inv_example:
  "pool_inv example_pool" "5 < length (arena example_pool)"
  "level (arena example_pool ! 5) = 2"
proof -
  note w = pool_wf_clear
  obtain a P1 where m1: "make (Some 0) (Some 0) (Some 1) (Some 1) NodePool_clear = Inr (Some a, P1)"
    and inv1: "pool_inv P1" and s1: "pool_ext NodePool_clear P1"
    and d_a: "den P1 a (Suc 0) (QNode (QLeaf False) (QLeaf False) (QLeaf True) (QLeaf True))"
    and k_a: "kids P1 a = Some (0, 0, 1, 1)"
    and c_a: "empty_cache P1 = empty_cache NodePool_clear"
    by (rule make_spec[OF pool_inv_clear den_leaf0[OF w] den_leaf0[OF w] den_leaf1[OF w] den_leaf1[OF w]])
  have w1: "pool_wf P1" using inv1 by (simp add: pool_inv_def)
  obtain b P2 where m2: "make (Some 0) (Some 0) (Some 1) (Some 0) P1 = Inr (Some b, P2)"
    and inv2: "pool_inv P2" and s2: "pool_ext P1 P2"
    and d_b: "den P2 b (Suc 0) (QNode (QLeaf False) (QLeaf False) (QLeaf True) (QLeaf False))"
    and k_b: "kids P2 b = Some (0, 0, 1, 0)"
    and c_b: "empty_cache P2 = empty_cache P1"
    by (rule make_spec[OF inv1 den_leaf0[OF w1] den_leaf0[OF w1] den_leaf1[OF w1] den_leaf0[OF w1]])
  have w2: "pool_wf P2" using inv2 by (simp add: pool_inv_def)
  obtain c P3 where m3: "make (Some 0) (Some 0) (Some 0) (Some 0) P2 = Inr (Some c, P3)"
    and inv3: "pool_inv P3" and s3: "pool_ext P2 P3"
    and d_c: "den P3 c (Suc 0) (QNode (QLeaf False) (QLeaf False) (QLeaf False) (QLeaf False))"
    and k_c: "kids P3 c = Some (0, 0, 0, 0)"
    and c_c: "empty_cache P3 = empty_cache P2"
    by (rule make_spec[OF inv2 den_leaf0[OF w2] den_leaf0[OF w2] den_leaf0[OF w2] den_leaf0[OF w2]])
  obtain r P4 where m4: "make (Some a) (Some b) (Some c) (Some c) P3 = Inr (Some r, P4)"
    and inv4: "pool_inv P4" and s4: "pool_ext P3 P4"
    and d_r: "den P4 r (Suc (Suc 0))
       (QNode (QNode (QLeaf False) (QLeaf False) (QLeaf True) (QLeaf True))
              (QNode (QLeaf False) (QLeaf False) (QLeaf True) (QLeaf False))
              (QNode (QLeaf False) (QLeaf False) (QLeaf False) (QLeaf False))
              (QNode (QLeaf False) (QLeaf False) (QLeaf False) (QLeaf False)))"
    and k_r: "kids P4 r = Some (a, b, c, c)"
    and c_r: "empty_cache P4 = empty_cache P3"
    by (rule make_spec[OF inv3 den_ext[OF den_ext[OF d_a s2] s3] den_ext[OF d_b s3] d_c d_c])
  have sq: "example_square = Inr (Some r, P4)"
    by (simp add: example_square_def m1 m2 m3 m4 del: One_nat_def)
  have p: "example_pool = P4" by (simp add: example_pool_def sq)
  have "(case example_square of Inr (q, P) \<Rightarrow> q | Inl e \<Rightarrow> None) = Some 5" by code_simp
  then have r5: "r = 5" by (simp add: sq)
  show "pool_inv example_pool" using inv4 p by simp
  show "5 < length (arena example_pool)" "level (arena example_pool ! 5) = 2"
    using d_r p r5 by (simp_all add: den_def)
qed

text \<open>
  Claim C3.  For a node of level \<open>k + 2\<close> of a pool that satisfies the invariant (any
  node of level at least 2: every cell of its center has its eight neighbours inside the
  node), \<^verbatim>\<open>slow_step\<close> returns a node of level \<open>k + 1\<close> whose square is the center
  \<open>2\<^sup>k\<^sup>+\<^sup>1 \<times> 2\<^sup>k\<^sup>+\<^sup>1\<close> square of the node advanced one generation under the Life rule.
  It returns (with one unit of fuel per level) and keeps the invariant.  At level 2
  (\<open>k = 0\<close>) \<^verbatim>\<open>step_4x4\<close> reads the sixteen leaves into the grid and returns the node
  made of \<^verbatim>\<open>life_rule\<close> at \<open>(1,1)\<close>, \<open>(2,1)\<close>, \<open>(1,2)\<close>, \<open>(2,2)\<close>.
\<close>

theorem slow_step_center_advanced:
  assumes "pool_inv P" and "p < length (arena P)" and "level (arena P ! p) = int k + 2"
    and "k < fuel"
  shows "\<exists>r P'. slow_step fuel (Some p) P = Inr (Some r, P') \<and> pool_inv P' \<and> pool_ext P P'
      \<and> r < length (arena P') \<and> level (arena P' ! r) = int k + 1
      \<and> (\<forall>x y. 0 \<le> x \<and> x < 2 * 2 ^ k \<and> 0 \<le> y \<and> y < 2 * 2 ^ k \<longrightarrow>
            alive_at (tree_of P' r) x y
              = life_next (alive_at (tree_of P p)) (x + 2 ^ k) (y + 2 ^ k))
      \<and> (k = 0 \<longrightarrow>
           (\<exists>r0 P0. grid_4x4 (Some p) P = Inr (leaf_grid (tree_of P p))
              \<and> step_4x4 (Some p) P = Inr (Some r0, P0)
              \<and> tree_of P0 r0 =
                  QNode (QLeaf (life_rule (leaf_grid (tree_of P p)) 1 1))
                        (QLeaf (life_rule (leaf_grid (tree_of P p)) 2 1))
                        (QLeaf (life_rule (leaf_grid (tree_of P p)) 1 2))
                        (QLeaf (life_rule (leaf_grid (tree_of P p)) 2 2))))"
proof -
  have dp: "den P p (Suc (Suc k)) (tree_of P p)" using assms(2,3) by (simp add: den_def)
  obtain r P' t' where run: "slow_step fuel (Some p) P = Inr (Some r, P')"
    and inv': "pool_inv P'" and ext: "pool_ext P P'" and dr: "den P' r (Suc k) t'"
    and adv: "advanced k (tree_of P p) t'"
    using slow_step_spec[OF assms(1) dp assms(4)] by blast
  have r: "r < length (arena P')" "level (arena P' ! r) = int k + 1" "tree_of P' r = t'"
    using dr by (simp_all add: den_def)
  have sem: "\<forall>x y. 0 \<le> x \<and> x < 2 * 2 ^ k \<and> 0 \<le> y \<and> y < 2 * 2 ^ k \<longrightarrow>
            alive_at (tree_of P' r) x y
              = life_next (alive_at (tree_of P p)) (x + 2 ^ k) (y + 2 ^ k)"
    using adv unfolding advanced_def r(3) by simp
  have base: "\<exists>r0 P0. grid_4x4 (Some p) P = Inr (leaf_grid (tree_of P p))
              \<and> step_4x4 (Some p) P = Inr (Some r0, P0)
              \<and> tree_of P0 r0 =
                  QNode (QLeaf (life_rule (leaf_grid (tree_of P p)) 1 1))
                        (QLeaf (life_rule (leaf_grid (tree_of P p)) 2 1))
                        (QLeaf (life_rule (leaf_grid (tree_of P p)) 1 2))
                        (QLeaf (life_rule (leaf_grid (tree_of P p)) 2 2))" if "k = 0"
  proof -
    have d0: "den P p (Suc (Suc 0)) (tree_of P p)" using dp that by simp
    obtain r0 P0 where "grid_4x4 (Some p) P = Inr (leaf_grid (tree_of P p))"
      "step_4x4 (Some p) P = Inr (Some r0, P0)" "pool_inv P0" "pool_ext P P0"
      "den P0 r0 (Suc 0)
       (QNode (QLeaf (life_rule (leaf_grid (tree_of P p)) 1 1))
              (QLeaf (life_rule (leaf_grid (tree_of P p)) 2 1))
              (QLeaf (life_rule (leaf_grid (tree_of P p)) 1 2))
              (QLeaf (life_rule (leaf_grid (tree_of P p)) 2 2)))"
      by (rule step_4x4_leaves[OF assms(1) d0])
    then show ?thesis by (auto simp: den_def)
  qed
  show ?thesis
    using run inv' ext r(1,2) sem base by blast
qed

theorem slow_step_center_advanced_witness:
  "pool_inv example_pool \<and> 5 < length (arena example_pool)
   \<and> level (arena example_pool ! 5) = int 0 + 2 \<and> (0 :: nat) < 1
   \<and> (\<exists>r P'. slow_step 1 (Some 5) example_pool = Inr (Some r, P')
        \<and> r < length (arena P') \<and> level (arena P' ! r) = 1
        \<and> alive_at (tree_of P' r) 0 0 = life_next (alive_at (tree_of example_pool 5)) 1 1
        \<and> alive_at (tree_of P' r) 1 0 = life_next (alive_at (tree_of example_pool 5)) 2 1
        \<and> alive_at (tree_of P' r) 0 1 = life_next (alive_at (tree_of example_pool 5)) 1 2
        \<and> alive_at (tree_of P' r) 1 1 = life_next (alive_at (tree_of example_pool 5)) 2 2)"
proof -
  have h: "pool_inv example_pool" "5 < length (arena example_pool)"
    "level (arena example_pool ! 5) = int 0 + 2" "(0 :: nat) < 1"
    using pool_inv_example by simp_all
  obtain r P' where c: "slow_step 1 (Some 5) example_pool = Inr (Some r, P')"
    "r < length (arena P')" "level (arena P' ! r) = int 0 + 1"
    "\<forall>x y. 0 \<le> x \<and> x < 2 * 2 ^ 0 \<and> 0 \<le> y \<and> y < 2 * 2 ^ 0 \<longrightarrow>
       alive_at (tree_of P' r) x y
         = life_next (alive_at (tree_of example_pool 5)) (x + 2 ^ 0) (y + 2 ^ 0)"
    using slow_step_center_advanced[OF h] by blast
  have "alive_at (tree_of P' r) 0 0 = life_next (alive_at (tree_of example_pool 5)) 1 1"
    "alive_at (tree_of P' r) 1 0 = life_next (alive_at (tree_of example_pool 5)) 2 1"
    "alive_at (tree_of P' r) 0 1 = life_next (alive_at (tree_of example_pool 5)) 1 2"
    "alive_at (tree_of P' r) 1 1 = life_next (alive_at (tree_of example_pool 5)) 2 2"
    using c(4)[rule_format, of 0 0] c(4)[rule_format, of 1 0] c(4)[rule_format, of 0 1]
      c(4)[rule_format, of 1 1] by simp_all
  then show ?thesis using h c(1-3) by auto
qed

text \<open>
  Claim C6.  In a pool that satisfies the invariant (as it does from \<^verbatim>\<open>clear\<close> on, so
  throughout one tick): \<^verbatim>\<open>make\<close> of four nodes of one level returns a node of the next
  level with these children, whose population is the sum of theirs, and every later
  \<^verbatim>\<open>make\<close> of the same four children returns this very node without changing the pool;
  two composite nodes with the same level and children are one node; two nodes of one
  level that stand for the same square are one node; every composite node's population
  is the sum of its children's; and once \<^verbatim>\<open>slow_step\<close> has returned for a node, the
  result is in its memo field, and every later \<^verbatim>\<open>slow_step\<close> of a node standing for the
  same square (it is the same node) returns this result and leaves the pool unchanged.
\<close>

theorem NodePool_canonical:
  assumes "pool_inv P"
  shows "(\<forall>a b c d. a < length (arena P) \<and> b < length (arena P) \<and> c < length (arena P)
            \<and> d < length (arena P) \<and> level (arena P ! b) = level (arena P ! a)
            \<and> level (arena P ! c) = level (arena P ! a)
            \<and> level (arena P ! d) = level (arena P ! a) \<longrightarrow>
          (\<exists>r P'. make (Some a) (Some b) (Some c) (Some d) P = Inr (Some r, P')
            \<and> pool_inv P' \<and> pool_ext P P' \<and> r < length (arena P')
            \<and> level (arena P' ! r) = level (arena P ! a) + 1
            \<and> nw (arena P' ! r) = Some a \<and> ne (arena P' ! r) = Some b
            \<and> sw (arena P' ! r) = Some c \<and> se (arena P' ! r) = Some d
            \<and> population (arena P' ! r) = population (arena P' ! a) + population (arena P' ! b)
                + population (arena P' ! c) + population (arena P' ! d)
            \<and> (\<forall>P''. pool_inv P'' \<and> pool_ext P' P'' \<longrightarrow>
                  make (Some a) (Some b) (Some c) (Some d) P'' = Inr (Some r, P''))))
    \<and> (\<forall>i j. i < length (arena P) \<and> j < length (arena P) \<and> 0 < level (arena P ! i)
          \<and> level (arena P ! j) = level (arena P ! i)
          \<and> nw (arena P ! j) = nw (arena P ! i) \<and> ne (arena P ! j) = ne (arena P ! i)
          \<and> sw (arena P ! j) = sw (arena P ! i) \<and> se (arena P ! j) = se (arena P ! i)
          \<longrightarrow> i = j)
    \<and> (\<forall>i j. i < length (arena P) \<and> j < length (arena P)
          \<and> level (arena P ! j) = level (arena P ! i) \<and> tree_of P j = tree_of P i
          \<longrightarrow> i = j)
    \<and> (\<forall>i. i < length (arena P) \<and> 0 < level (arena P ! i) \<longrightarrow>
          (\<exists>a b c d. nw (arena P ! i) = Some a \<and> ne (arena P ! i) = Some b
            \<and> sw (arena P ! i) = Some c \<and> se (arena P ! i) = Some d
            \<and> population (arena P ! i) = population (arena P ! a) + population (arena P ! b)
                + population (arena P ! c) + population (arena P ! d)))
    \<and> (\<forall>p k fuel. p < length (arena P) \<and> level (arena P ! p) = int k + 2 \<and> k < fuel \<longrightarrow>
          (\<exists>r P'. slow_step fuel (Some p) P = Inr (Some r, P') \<and> pool_inv P' \<and> pool_ext P P'
            \<and> step1_result (arena P' ! p) = Some r
            \<and> (\<forall>P'' q fuel'. pool_inv P'' \<and> pool_ext P' P'' \<and> q < length (arena P'')
                  \<and> level (arena P'' ! q) = int k + 2 \<and> tree_of P'' q = tree_of P p \<longrightarrow>
                  q = p \<and> slow_step (Suc fuel') (Some q) P'' = Inr (Some r, P''))))"
proof -
  have wf: "pool_wf P" using assms by (simp add: pool_inv_def)
  show ?thesis
  proof (intro conjI allI impI)
    fix a b c d
    assume "a < length (arena P) \<and> b < length (arena P) \<and> c < length (arena P)
            \<and> d < length (arena P) \<and> level (arena P ! b) = level (arena P ! a)
            \<and> level (arena P ! c) = level (arena P ! a)
            \<and> level (arena P ! d) = level (arena P ! a)"
    then show "\<exists>r P'. make (Some a) (Some b) (Some c) (Some d) P = Inr (Some r, P')
            \<and> pool_inv P' \<and> pool_ext P P' \<and> r < length (arena P')
            \<and> level (arena P' ! r) = level (arena P ! a) + 1
            \<and> nw (arena P' ! r) = Some a \<and> ne (arena P' ! r) = Some b
            \<and> sw (arena P' ! r) = Some c \<and> se (arena P' ! r) = Some d
            \<and> population (arena P' ! r) = population (arena P' ! a) + population (arena P' ! b)
                + population (arena P' ! c) + population (arena P' ! d)
            \<and> (\<forall>P''. pool_inv P'' \<and> pool_ext P' P'' \<longrightarrow>
                  make (Some a) (Some b) (Some c) (Some d) P'' = Inr (Some r, P''))"
      using make_canonical[OF assms, of a b c d] by simp
  next
    fix i j
    assume "i < length (arena P) \<and> j < length (arena P) \<and> 0 < level (arena P ! i)
          \<and> level (arena P ! j) = level (arena P ! i)
          \<and> nw (arena P ! j) = nw (arena P ! i) \<and> ne (arena P ! j) = ne (arena P ! i)
          \<and> sw (arena P ! j) = sw (arena P ! i) \<and> se (arena P ! j) = se (arena P ! i)"
    then show "i = j" using key_inj[OF wf, of i j] by simp
  next
    fix i j
    assume "i < length (arena P) \<and> j < length (arena P)
          \<and> level (arena P ! j) = level (arena P ! i) \<and> tree_of P j = tree_of P i"
    then show "i = j" using tree_inj[OF wf, of i j] by simp
  next
    fix i
    assume "i < length (arena P) \<and> 0 < level (arena P ! i)"
    then show "\<exists>a b c d. nw (arena P ! i) = Some a \<and> ne (arena P ! i) = Some b
            \<and> sw (arena P ! i) = Some c \<and> se (arena P ! i) = Some d
            \<and> population (arena P ! i) = population (arena P ! a) + population (arena P ! b)
                + population (arena P ! c) + population (arena P ! d)"
      using composite_population[OF wf, of i] by simp
  next
    fix p k fuel
    assume "p < length (arena P) \<and> level (arena P ! p) = int k + 2 \<and> k < fuel"
    then show "\<exists>r P'. slow_step fuel (Some p) P = Inr (Some r, P') \<and> pool_inv P' \<and> pool_ext P P'
            \<and> step1_result (arena P' ! p) = Some r
            \<and> (\<forall>P'' q fuel'. pool_inv P'' \<and> pool_ext P' P'' \<and> q < length (arena P'')
                  \<and> level (arena P'' ! q) = int k + 2 \<and> tree_of P'' q = tree_of P p \<longrightarrow>
                  q = p \<and> slow_step (Suc fuel') (Some q) P'' = Inr (Some r, P''))"
      using slow_step_memo[OF assms, of p k fuel] by simp
  qed
qed

theorem NodePool_canonical_witness:
  "pool_inv NodePool_clear
   \<and> (\<exists>r P'. make (Some 0) (Some 0) (Some 1) (Some 1) NodePool_clear = Inr (Some r, P')
         \<and> level (arena P' ! r) = 1 \<and> population (arena P' ! r) = 2
         \<and> make (Some 0) (Some 0) (Some 1) (Some 1) P' = Inr (Some r, P'))
   \<and> pool_inv example_pool
   \<and> (\<exists>r P'. slow_step 1 (Some 5) example_pool = Inr (Some r, P')
         \<and> step1_result (arena P' ! 5) = Some r
         \<and> slow_step 1 (Some 5) P' = Inr (Some r, P'))"
proof -
  note c = NodePool_canonical[OF pool_inv_clear]
  note e = NodePool_canonical[OF pool_inv_example(1)]
  have a: "arena NodePool_clear =
      [\<lparr>level = 0, population = 0, nw = None, ne = None, sw = None, se = None,
         step1_result = None\<rparr>,
       \<lparr>level = 0, population = 1, nw = None, ne = None, sw = None, se = None,
         step1_result = None\<rparr>]"
    by (simp add: NodePool_clear_def alloc_raw_def Let_def)
  have h: "0 < length (arena NodePool_clear) \<and> 0 < length (arena NodePool_clear)
      \<and> 1 < length (arena NodePool_clear) \<and> 1 < length (arena NodePool_clear)
      \<and> level (arena NodePool_clear ! 0) = level (arena NodePool_clear ! 0)
      \<and> level (arena NodePool_clear ! 1) = level (arena NodePool_clear ! 0)
      \<and> level (arena NodePool_clear ! 1) = level (arena NodePool_clear ! 0)"
    by (simp add: a)
  obtain r P' where m: "make (Some 0) (Some 0) (Some 1) (Some 1) NodePool_clear = Inr (Some r, P')"
    and inv: "pool_inv P'" and ext: "pool_ext NodePool_clear P'"
    and l: "level (arena P' ! r) = level (arena NodePool_clear ! 0) + 1"
    and p: "population (arena P' ! r) = population (arena P' ! 0) + population (arena P' ! 0)
                + population (arena P' ! 1) + population (arena P' ! 1)"
    and again: "\<forall>P''. pool_inv P'' \<and> pool_ext P' P'' \<longrightarrow>
        make (Some 0) (Some 0) (Some 1) (Some 1) P'' = Inr (Some r, P'')"
    using c[THEN conjunct1, rule_format, OF h] by blast
  have p0: "population (arena P' ! 0) = 0" "population (arena P' ! 1) = 1"
    using pool_ext_shape[OF ext, of 0] pool_ext_shape[OF ext, of 1] by (simp_all add: a)
  have first: "\<exists>r P'. make (Some 0) (Some 0) (Some 1) (Some 1) NodePool_clear = Inr (Some r, P')
         \<and> level (arena P' ! r) = 1 \<and> population (arena P' ! r) = 2
         \<and> make (Some 0) (Some 0) (Some 1) (Some 1) P' = Inr (Some r, P')"
    using m l p p0 again[rule_format, of P'] inv pool_ext_refl[of P'] by (simp add: a)
  have g: "5 < length (arena example_pool) \<and> level (arena example_pool ! 5) = int 0 + 2
      \<and> (0 :: nat) < 1"
    using pool_inv_example by simp
  obtain s Q where run: "slow_step 1 (Some 5) example_pool = Inr (Some s, Q)"
    and invQ: "pool_inv Q" and extQ: "pool_ext example_pool Q"
    and st: "step1_result (arena Q ! 5) = Some s"
    and later: "\<forall>P'' q fuel'. pool_inv P'' \<and> pool_ext Q P'' \<and> q < length (arena P'')
          \<and> level (arena P'' ! q) = int 0 + 2 \<and> tree_of P'' q = tree_of example_pool 5 \<longrightarrow>
          q = 5 \<and> slow_step (Suc fuel') (Some q) P'' = Inr (Some s, P'')"
    using e[THEN conjunct2, THEN conjunct2, THEN conjunct2, THEN conjunct2, rule_format, OF g]
    by blast
  have q5: "5 < length (arena Q)" "level (arena Q ! 5) = int 0 + 2"
    "tree_of Q 5 = tree_of example_pool 5"
    using pool_ext_length[OF extQ, of 5] pool_ext_shape[OF extQ, of 5]
      tree_of_ext[OF extQ, of 5] pool_inv_example by simp_all
  have "slow_step (Suc 0) (Some 5) Q = Inr (Some s, Q)"
    using later[rule_format, of Q 5 0] invQ pool_ext_refl[of Q] q5 by blast
  then have second: "\<exists>r P'. slow_step 1 (Some 5) example_pool = Inr (Some r, P')
         \<and> step1_result (arena P' ! 5) = Some r
         \<and> slow_step 1 (Some 5) P' = Inr (Some r, P')"
    using run st by auto
  show ?thesis
    using pool_inv_clear first pool_inv_example(1) second by blast
qed

end
